theory Spec2Isabelle
  imports Main "HOL-Library.Sublist"
begin

section \<open>JavaScript values\<close>

text \<open>
  The handlers and the bridge are written against \<^verbatim>\<open>unknown\<close>, so the model has one
  universe of values. A push source (an rxjs Observable) is the list of events its
  observer is going to receive, an async generator object is the list of outcomes its
  successive pulls produce, and a Promise is the way it settles. The code does no
  arithmetic: a number is given by its rendering \<^verbatim>\<open>String(n)\<close>, such as \<open>''1''\<close>,
  \<open>''-7''\<close> or \<open>''1e+21''\<close>.
\<close>

datatype 'v event = Next 'v | Error 'v | Complete

datatype 'v outcome = Yield 'v | Throw 'v | Done

datatype 'v settle = Fulfilled 'v | Rejected 'v | Unsettled

datatype jsval =
    JUndefined
  | JNull
  | JBool bool
  | JNum string
  | JStr string
  | JError string
  | JObj "(string \<times> jsval) list"
  | JObservable "jsval event list"
  | JAsyncGen "jsval outcome list"
  | JPromise "jsval settle"

text \<open>\<^verbatim>\<open>x instanceof Error\<close>, \<^verbatim>\<open>isObservable(x)\<close>, \<^verbatim>\<open>x instanceof Promise\<close> and
  \<^verbatim>\<open>isAsyncGenerator(x)\<close>.\<close>

fun instanceof_Error :: "jsval \<Rightarrow> bool" where
  "instanceof_Error (JError m) = True"
| "instanceof_Error v = False"

fun isObservable :: "jsval \<Rightarrow> bool" where
  "isObservable (JObservable evs) = True"
| "isObservable v = False"

fun instanceof_Promise :: "jsval \<Rightarrow> bool" where
  "instanceof_Promise (JPromise p) = True"
| "instanceof_Promise v = False"

fun isAsyncGenerator :: "jsval \<Rightarrow> bool" where
  "isAsyncGenerator (JAsyncGen outs) = True"
| "isAsyncGenerator v = False"

text \<open>\<^verbatim>\<open>String(x)\<close>.\<close>

fun String_js :: "jsval \<Rightarrow> string" where
  "String_js JUndefined = ''undefined''"
| "String_js JNull = ''null''"
| "String_js (JBool b) = (if b then ''true'' else ''false'')"
| "String_js (JNum rendering) = rendering"
| "String_js (JStr s) = s"
| "String_js (JError m) = (if m = [] then ''Error'' else ''Error: '' @ m)"
| "String_js (JObj fs) = ''[object Object]''"
| "String_js (JObservable evs) = ''[object Object]''"
| "String_js (JAsyncGen outs) = ''[object AsyncGenerator]''"
| "String_js (JPromise p) = ''[object Promise]''"

fun typeof :: "jsval \<Rightarrow> string" where
  "typeof JUndefined = ''undefined''"
| "typeof (JBool b) = ''boolean''"
| "typeof (JNum rendering) = ''number''"
| "typeof (JStr s) = ''string''"
| "typeof v = ''object''"

text \<open>\<^verbatim>\<open>await x\<close>: a value that is not a promise is its own result; a promise gives the
  value it is fulfilled with or throws the reason it is rejected with.\<close>

fun await_js :: "jsval \<Rightarrow> jsval settle" where
  "await_js (JPromise (Fulfilled v)) = await_js v"
| "await_js (JPromise (Rejected e)) = Rejected e"
| "await_js (JPromise Unsettled) = Unsettled"
| "await_js v = Fulfilled v"

section \<open>The push-to-pull bridge: \<^verbatim>\<open>observableToAsyncGenerator\<close>\<close>

text \<open>
  The generator body is a coroutine. Its local variables are the fields \<open>queue\<close>,
  \<open>error\<close>, \<open>completed\<close> and \<open>resolve\<close>; \<open>resolve\<close> is \<open>True\<close> when the variable
  holds a resolver (is not \<^verbatim>\<open>null\<close>) and \<open>woken\<close> says whether the promise that resolver
  belongs to has been resolved. \<open>subscribed\<close> records the call of \<^verbatim>\<open>obs$.subscribe\<close>,
  \<open>unsubscribed\<close> counts the calls of \<^verbatim>\<open>subscription.unsubscribe\<close>, \<open>source\<close> holds the
  events the push source has not emitted yet, and \<open>pc\<close> is the point at which the body
  is suspended.
\<close>

datatype control =
    NotStarted    \<comment> \<open>the generator object exists, the body has not run\<close>
  | Subscribing   \<comment> \<open>inside \<^verbatim>\<open>obs$.subscribe(...)\<close>: the source may emit synchronously\<close>
  | AtItem        \<comment> \<open>inside \<^verbatim>\<open>yield item\<close>, awaiting an item that is a promise and never settles\<close>
  | AtYield       \<comment> \<open>suspended at \<^verbatim>\<open>yield item\<close>, the item handed to the consumer\<close>
  | AtAwait       \<comment> \<open>suspended at \<^verbatim>\<open>await new Promise(...)\<close>\<close>
  | Finished      \<comment> \<open>the body has returned or thrown\<close>

record bridge =
  queue :: "jsval list"
  error :: jsval
  completed :: bool
  resolve :: bool
  woken :: bool
  subscribed :: bool
  unsubscribed :: nat
  source :: "jsval event list"
  pc :: control

definition init :: "jsval event list \<Rightarrow> bridge" where
  "init evs =
     \<lparr>queue = [], error = JNull, completed = False, resolve = False, woken = False,
      subscribed = False, unsubscribed = 0, source = evs, pc = NotStarted\<rparr>"

text \<open>The three observer callbacks. \<open>wake\<close> is \<^verbatim>\<open>resolve?.()\<close>.\<close>

definition wake :: "bridge \<Rightarrow> bridge" where
  "wake s = (if resolve s then s\<lparr>woken := True\<rparr> else s)"

definition on_next :: "jsval \<Rightarrow> bridge \<Rightarrow> bridge" where
  "on_next v s = wake (s\<lparr>queue := queue s @ [v]\<rparr>)"

definition on_error :: "jsval \<Rightarrow> bridge \<Rightarrow> bridge" where
  "on_error err s = wake (s\<lparr>error := err\<rparr>)"

definition on_complete :: "bridge \<Rightarrow> bridge" where
  "on_complete s = wake (s\<lparr>completed := True\<rparr>)"

fun deliver :: "jsval event \<Rightarrow> bridge \<Rightarrow> bridge" where
  "deliver (Next v) s = on_next v s"
| "deliver (Error err) s = on_error err s"
| "deliver Complete s = on_complete s"

text \<open>The \<^verbatim>\<open>finally\<close> block.\<close>

definition finally_block :: "bridge \<Rightarrow> bridge" where
  "finally_block s = s\<lparr>unsubscribed := Suc (unsubscribed s), pc := Finished\<rparr>"

text \<open>
  The inner \<^verbatim>\<open>while (queue.length > 0)\<close> loop up to its next \<^verbatim>\<open>yield\<close>: it shifts items
  off the queue, skips those that are \<^verbatim>\<open>undefined\<close>, and stops at the first other item
  (returned with the rest of the queue) or when the queue is empty.
\<close>

fun shift_item :: "jsval list \<Rightarrow> (jsval \<times> jsval list) option" where
  "shift_item [] = None"
| "shift_item (item # rest) =
     (if item \<noteq> JUndefined then Some (item, rest) else shift_item rest)"

text \<open>The value of \<^verbatim>\<open>error instanceof Error ? error : new Error(String(error))\<close>.\<close>

definition thrown :: "jsval \<Rightarrow> jsval" where
  "thrown err = (if instanceof_Error err then err else JError (String_js err))"

text \<open>
  The body from the head of the inner loop to the next suspension or exit. The result is
  the new state and what the pending pull receives, if it is settled. In an async
  generator \<^verbatim>\<open>yield item\<close> awaits the item first: the consumer is handed the value the
  item is fulfilled with; when the item is a rejected promise the reason is thrown at the
  \<^verbatim>\<open>yield\<close>, inside the \<^verbatim>\<open>try\<close>, so the \<^verbatim>\<open>finally\<close> block runs and the pull fails with
  that reason; when it is a promise that never settles the body stays there.
\<close>

definition loop :: "bridge \<Rightarrow> bridge \<times> jsval outcome option" where
  "loop s =
     (case shift_item (queue s) of
        Some (item, rest) \<Rightarrow>
          (case await_js item of
             Fulfilled v \<Rightarrow> (s\<lparr>queue := rest, pc := AtYield\<rparr>, Some (Yield v))
           | Rejected reason \<Rightarrow> (finally_block (s\<lparr>queue := rest\<rparr>), Some (Throw reason))
           | Unsettled \<Rightarrow> (s\<lparr>queue := rest, pc := AtItem\<rparr>, None))
      | None \<Rightarrow>
          (let s1 = s\<lparr>queue := []\<rparr> in
           if error s1 \<noteq> JNull then (finally_block s1, Some (Throw (thrown (error s1))))
           else if completed s1 then (finally_block s1, Some Done)
           else (s1\<lparr>resolve := True, woken := False, pc := AtAwait\<rparr>, None)))"

text \<open>
  What the consumer asks of the generator object: \<^verbatim>\<open>next()\<close> or \<^verbatim>\<open>return()\<close>. A request
  made while the body is running waits in the generator's request queue.
\<close>

datatype request = RNext | RReturn

fun serve :: "bridge \<Rightarrow> request \<Rightarrow> bridge \<times> jsval outcome option" where
  "serve s r =
     (case pc s of
        NotStarted \<Rightarrow>
          (case r of
             RNext \<Rightarrow> (s\<lparr>subscribed := True, pc := Subscribing\<rparr>, None)
           | RReturn \<Rightarrow> (s\<lparr>pc := Finished\<rparr>, Some Done))
      | AtYield \<Rightarrow>
          (case r of
             RNext \<Rightarrow> loop s
           | RReturn \<Rightarrow> (finally_block s, Some Done))
      | Finished \<Rightarrow> (s, Some Done)
      | Subscribing \<Rightarrow> (s, None)
      | AtItem \<Rightarrow> (s, None)
      | AtAwait \<Rightarrow> (s, None))"

definition running :: "bridge \<Rightarrow> bool" where
  "running s = (pc s = Subscribing \<or> pc s = AtItem \<or> pc s = AtAwait)"

fun out_list :: "'a option \<Rightarrow> 'a list" where
  "out_list None = []"
| "out_list (Some x) = [x]"

text \<open>Serve the waiting requests for as long as the body is not running.\<close>

fun drive :: "bridge \<Rightarrow> request list \<Rightarrow> bridge \<times> request list \<times> jsval outcome list" where
  "drive s [] = (s, [], [])"
| "drive s (r # rs) =
     (if running s then (s, r # rs, [])
      else (case serve s r of
              (s1, out) \<Rightarrow>
                (case drive s1 rs of
                   (s2, rs2, outs) \<Rightarrow> (s2, rs2, out_list out @ outs))))"

text \<open>
  What happens around the generator: the consumer pulls or abandons the sequence, the
  source emits its next event (while the subscription is open), and the running body
  continues (the call of \<^verbatim>\<open>subscribe\<close> returns, or the awaited promise has been resolved).
\<close>

datatype action = Pull | Return | Emit | Resume

definition emit :: "bridge \<Rightarrow> bridge" where
  "emit s =
     (if pc s = Subscribing \<or> pc s = AtItem \<or> pc s = AtYield \<or> pc s = AtAwait then
        (case source s of
           [] \<Rightarrow> s
         | ev # evs \<Rightarrow> deliver ev (s\<lparr>source := evs\<rparr>))
      else s)"

definition continue :: "bridge \<Rightarrow> bridge \<times> jsval outcome option" where
  "continue s =
     (if pc s = Subscribing then loop s
      else if pc s = AtAwait \<and> woken s then loop (s\<lparr>resolve := False\<rparr>)
      else (s, None))"

type_synonym config = "bridge \<times> request list"

fun step :: "config \<Rightarrow> action \<Rightarrow> config \<times> jsval outcome list" where
  "step (s, rs) Pull = (case drive s (rs @ [RNext]) of (s1, rs1, outs) \<Rightarrow> ((s1, rs1), outs))"
| "step (s, rs) Return = (case drive s (rs @ [RReturn]) of (s1, rs1, outs) \<Rightarrow> ((s1, rs1), outs))"
| "step (s, rs) Emit = ((emit s, rs), [])"
| "step (s, rs) Resume =
     (case continue s of
        (s1, out) \<Rightarrow>
          (case drive s1 rs of (s2, rs2, outs) \<Rightarrow> ((s2, rs2), out_list out @ outs)))"

fun run :: "config \<Rightarrow> action list \<Rightarrow> config \<times> jsval outcome list" where
  "run c [] = (c, [])"
| "run c (a # as) =
     (case step c a of
        (c1, outs) \<Rightarrow> (case run c1 as of (c2, outs2) \<Rightarrow> (c2, outs @ outs2)))"

text \<open>The bridge over a push source, under a schedule: the final state and everything
  the consumer received, in order.\<close>

definition observableToAsyncGenerator ::
  "jsval event list \<Rightarrow> action list \<Rightarrow> config \<times> jsval outcome list" where
  "observableToAsyncGenerator evs sched = run (init evs, []) sched"

section \<open>The result normalizer and the call-shape dispatcher\<close>

text \<open>\<^verbatim>\<open>transformToObservable\<close>: the events the returned Observable gives its observer.\<close>

fun transformToObservable :: "jsval \<Rightarrow> jsval event list" where
  "transformToObservable (JObservable evs) = evs"
| "transformToObservable (JPromise (Fulfilled v)) = [Next v, Complete]"
| "transformToObservable (JPromise (Rejected e)) = [Error e]"
| "transformToObservable (JPromise Unsettled) = []"
| "transformToObservable v = [Next v, Complete]"

text \<open>
  Modelled from the spec: the Empty-Result error. It is the error that \<^verbatim>\<open>lastValueFrom\<close> of
  the rxjs package rejects with (\<^verbatim>\<open>EmptyError\<close>); the package's code is not part of the
  repository.
\<close>

definition EmptyError :: jsval where
  "EmptyError = JError ''no elements in sequence''"

text \<open>
  Modelled from the spec: \<^verbatim>\<open>lastValueFrom\<close> is imported from the rxjs package and its code
  is not part of the repository. Following section 4.3 of the specification, the promise
  resolves to the last value emitted before completion, fails with the Empty-Result error
  when the stream completes with zero emissions, and fails with the stream's error when
  the stream errors. A stream that never terminates leaves the promise unsettled.
  \<open>lastValue\<close> is its subscriber, with the latest value seen so far.
\<close>

fun lastValue :: "jsval option \<Rightarrow> jsval event list \<Rightarrow> jsval settle" where
  "lastValue latest [] = Unsettled"
| "lastValue latest (Next v # evs) = lastValue (Some v) evs"
| "lastValue latest (Error err # evs) = Rejected err"
| "lastValue latest (Complete # evs) =
     (case latest of Some v \<Rightarrow> Fulfilled v | None \<Rightarrow> Rejected EmptyError)"

text \<open>
  Modelled from the spec: \<^verbatim>\<open>lastValueFrom\<close> of the rxjs package (see above), started with no
  value seen.
\<close>

definition lastValueFrom :: "jsval event list \<Rightarrow> jsval settle" where
  "lastValueFrom evs = lastValue None evs"

text \<open>
  What an adapter hands to the transport: a promise (unary and client streaming) or a
  pull sequence (server and bidirectional streaming). \<^verbatim>\<open>yield*\<close> makes the adapter's pull
  sequence that of the generator it delegates to: the bridge over an Observable, or the
  handler's own async generator. The remaining cases are a generator whose first pull
  throws, and one whose first pull never settles.
\<close>

datatype pull_sequence =
    Bridged "jsval event list"
  | PassedThrough "jsval outcome list"
  | Failing jsval
  | Hanging

datatype response = Single "jsval settle" | Sequence pull_sequence

type_synonym handler = "jsval \<Rightarrow> jsval \<Rightarrow> jsval"

type_synonym adapter = "jsval \<Rightarrow> jsval \<Rightarrow> response"

fun toAsyncGenerator :: "jsval \<Rightarrow> pull_sequence" where
  "toAsyncGenerator (JObservable evs) = Bridged evs"
| "toAsyncGenerator (JAsyncGen outs) = PassedThrough outs"
| "toAsyncGenerator v =
     Failing (JError (''Unsupported input type. Expected Observable or AsyncGenerator, got ''
                      @ typeof v))"

text \<open>The four closures that \<^verbatim>\<open>createServiceHandlers\<close> builds around a handler.\<close>

definition unaryHandler :: "handler \<Rightarrow> adapter" where
  "unaryHandler handler request context =
     (case await_js (handler request context) of
        Fulfilled resultOrDeferred \<Rightarrow>
          Single (lastValueFrom (transformToObservable resultOrDeferred))
      | Rejected e \<Rightarrow> Single (Rejected e)
      | Unsettled \<Rightarrow> Single Unsettled)"

definition serverStreamingHandler :: "handler \<Rightarrow> adapter" where
  "serverStreamingHandler handler request context =
     (case await_js (handler request context) of
        Fulfilled resultOrDeferred \<Rightarrow> Sequence (toAsyncGenerator resultOrDeferred)
      | Rejected e \<Rightarrow> Sequence (Failing e)
      | Unsettled \<Rightarrow> Sequence Hanging)"

definition clientStreamingHandler :: "handler \<Rightarrow> adapter" where
  "clientStreamingHandler handler requests context =
     (case await_js (handler requests context) of
        Fulfilled resultOrDeferred \<Rightarrow>
          Single (lastValueFrom (transformToObservable resultOrDeferred))
      | Rejected e \<Rightarrow> Single (Rejected e)
      | Unsettled \<Rightarrow> Single Unsettled)"

definition bidiStreamingHandler :: "handler \<Rightarrow> adapter" where
  "bidiStreamingHandler handler requests context =
     (case await_js (handler requests context) of
        Fulfilled resultOrDeferred \<Rightarrow> Sequence (toAsyncGenerator resultOrDeferred)
      | Rejected e \<Rightarrow> Sequence (Failing e)
      | Unsettled \<Rightarrow> Sequence Hanging)"

text \<open>What the caller of a bridged pull sequence receives under a schedule.\<close>

fun bridged_outcomes :: "response \<Rightarrow> action list \<Rightarrow> jsval outcome list option" where
  "bridged_outcomes (Sequence (Bridged evs)) sched =
     Some (snd (observableToAsyncGenerator evs sched))"
| "bridged_outcomes r sched = None"

text \<open>
  The \<^verbatim>\<open>switch\<close> of \<^verbatim>\<open>createServiceHandlers\<close> on the streaming kind, a string taken from
  the parsed key: the closure stored for the method, or the error thrown for a kind that
  is not one of the four.
\<close>

definition NO_STREAMING :: string where "NO_STREAMING = ''no_stream''"
definition RX_STREAMING :: string where "RX_STREAMING = ''rx_stream''"
definition PT_STREAMING :: string where "PT_STREAMING = ''pt_stream''"
definition DUPLEX_STREAMING :: string where "DUPLEX_STREAMING = ''duplex_stream''"

type_synonym 'm ServiceHandlerMap = "(string \<times> (string \<times> 'm) list) list"

definition dispatch :: "string \<Rightarrow> handler \<Rightarrow> jsval + adapter" where
  "dispatch streamingType handler =
     (if streamingType = NO_STREAMING then Inr (unaryHandler handler)
      else if streamingType = RX_STREAMING then Inr (serverStreamingHandler handler)
      else if streamingType = PT_STREAMING then Inr (clientStreamingHandler handler)
      else if streamingType = DUPLEX_STREAMING then Inr (bidiStreamingHandler handler)
      else Inl (JError (''Invalid streaming type: '' @ streamingType)))"

section \<open>The service registry binder: \<^verbatim>\<open>addServicesToRouter\<close>\<close>

text \<open>
  \<open>metadataStore\<close> is the registry of service descriptors by name, and the router is the
  list of the calls \<^verbatim>\<open>router.service(service, impl)\<close> made so far. The loop runs over
  \<^verbatim>\<open>Object.keys(serviceHandlers)\<close>.
\<close>

definition attach ::
  "(string \<rightharpoonup> 'd) \<Rightarrow> 'm ServiceHandlerMap \<Rightarrow> ('d \<times> (string \<times> 'm) list) list \<Rightarrow> string
   \<Rightarrow> ('d \<times> (string \<times> 'm) list) list" where
  "attach metadataStore serviceHandlers router serviceName =
     (case metadataStore serviceName of
        Some descService \<Rightarrow>
          (case map_of serviceHandlers serviceName of
             Some impl \<Rightarrow> router @ [(descService, impl)]
           | None \<Rightarrow> router)
      | None \<Rightarrow> router)"

definition addServicesToRouter ::
  "(string \<rightharpoonup> 'd) \<Rightarrow> ('d \<times> (string \<times> 'm) list) list \<Rightarrow> 'm ServiceHandlerMap
   \<Rightarrow> ('d \<times> (string \<times> 'm) list) list" where
  "addServicesToRouter metadataStore router serviceHandlers =
     foldl (attach metadataStore serviceHandlers) router (map fst serviceHandlers)"

section \<open>Notions used in the statements\<close>

text \<open>The values a list of events carries, and the values that are not \<^verbatim>\<open>undefined\<close>.\<close>

fun emitted :: "jsval event list \<Rightarrow> jsval list" where
  "emitted [] = []"
| "emitted (Next v # evs) = v # emitted evs"
| "emitted (ev # evs) = emitted evs"

definition defined :: "jsval list \<Rightarrow> jsval list" where
  "defined vs = filter (\<lambda>v. v \<noteq> JUndefined) vs"

text \<open>What the consumer receives for a terminal event once the queue is drained, if
  anything: exhaustion for a completion, and for an error what the \<^verbatim>\<open>throw\<close> statement
  throws, unless the cause is \<^verbatim>\<open>null\<close>.\<close>

fun final_outcome :: "jsval event \<Rightarrow> jsval outcome option" where
  "final_outcome Complete = Some Done"
| "final_outcome (Error e) = (if e = JNull then None else Some (Throw (thrown e)))"
| "final_outcome (Next v) = None"

text \<open>
  What a consumer that pulls to the end receives from a source that emits the values
  \<open>vs\<close> and then the event \<open>t\<close>, with \<open>n\<close> more pulls after the end of the sequence.
  A value that is \<^verbatim>\<open>undefined\<close> gives nothing; any other value is awaited and gives what
  it is fulfilled with; a rejected promise ends the sequence with its reason; a promise
  that never settles stops it. \<open>finishes\<close> says whether the sequence ends at all.
\<close>

fun expected :: "jsval list \<Rightarrow> jsval event \<Rightarrow> nat \<Rightarrow> jsval outcome list" where
  "expected [] t n =
     (case final_outcome t of Some out \<Rightarrow> out # replicate n Done | None \<Rightarrow> [])"
| "expected (v # vs) t n =
     (if v = JUndefined then expected vs t n
      else (case await_js v of
              Fulfilled w \<Rightarrow> Yield w # expected vs t n
            | Rejected reason \<Rightarrow> Throw reason # replicate n Done
            | Unsettled \<Rightarrow> []))"

fun finishes :: "jsval list \<Rightarrow> jsval event \<Rightarrow> bool" where
  "finishes [] t = (final_outcome t \<noteq> None)"
| "finishes (v # vs) t =
     (if v = JUndefined then finishes vs t
      else (case await_js v of
              Fulfilled w \<Rightarrow> finishes vs t
            | Rejected reason \<Rightarrow> True
            | Unsettled \<Rightarrow> False))"

text \<open>
  A schedule that lets a started or unstarted bridge run to its end: the consumer pulls,
  the source emits up to \<open>n\<close> more events, the body continues, and the consumer pulls
  \<open>n\<close> more times.
\<close>

definition flush :: "nat \<Rightarrow> action list" where
  "flush n = [Pull, Resume] @ replicate n Emit @ [Resume] @ replicate n Pull"

text \<open>Handlers used as instances: one returns the object \<^verbatim>\<open>{data: "x"}\<close>, one a
  promise of it, one a stream that emits \<open>1\<close>, \<open>2\<close> and completes, one a stream that
  completes at once, one a stream that emits \<open>1\<close> and fails, and one an async generator.\<close>

definition immediate_handler :: handler where
  "immediate_handler request context = JObj [(''data'', JStr ''x'')]"

definition deferred_handler :: handler where
  "deferred_handler request context = JPromise (Fulfilled (JObj [(''data'', JStr ''x'')]))"

definition stream_handler :: handler where
  "stream_handler request context = JObservable [Next (JNum ''1''), Next (JNum ''2''), Complete]"

definition empty_stream_handler :: handler where
  "empty_stream_handler request context = JObservable [Complete]"

definition failing_stream_handler :: handler where
  "failing_stream_handler request context =
     JObservable [Next (JNum ''1''), Error (JError ''observable error'')]"

definition generator_handler :: handler where
  "generator_handler request context = JAsyncGen [Yield (JStr ''a''), Yield (JStr ''b''), Done]"

section \<open>Invariants\<close>

text \<open>
  The predicates below describe the reachable configurations of the bridge; they are
  used in the proofs and in some of the statements.
\<close>

text \<open>The wake handle is installed exactly while the body awaits; a body that awaits and
  has not been woken has seen no event since it drained the queue; and
  \<^verbatim>\<open>unsubscribe\<close> has been called once if the generator finished after subscribing,
  and not at all otherwise.\<close>

definition sane :: "config \<Rightarrow> bool" where
  "sane c =
     (case c of (s, rs) \<Rightarrow>
        (resolve s \<longleftrightarrow> pc s = AtAwait) \<and>
        (pc s = AtAwait \<and> \<not> woken s \<longrightarrow> queue s = [] \<and> error s = JNull \<and> \<not> completed s) \<and>
        unsubscribed s = (if pc s = Finished \<and> subscribed s then 1 else 0) \<and>
        (pc s = Subscribing \<or> pc s = AtItem \<or> pc s = AtYield \<or> pc s = AtAwait
           \<longrightarrow> subscribed s) \<and>
        (pc s = NotStarted \<longrightarrow> \<not> subscribed s))"

text \<open>Requests wait only while the body is running.\<close>

definition idle :: "config \<Rightarrow> bool" where
  "idle c = (case c of (s, rs) \<Rightarrow> rs \<noteq> [] \<longrightarrow> running s)"

text \<open>The request the running body is working on, and the requests of a schedule.\<close>

definition inflight :: "bridge \<Rightarrow> nat" where
  "inflight s = (if running s then 1 else 0)"

definition requests :: "action list \<Rightarrow> nat" where
  "requests sched = length (filter (\<lambda>a. a = Pull \<or> a = Return) sched)"

text \<open>The events still to come are values followed by the terminal event \<open>t\<close>.\<close>

fun unemitted :: "jsval event \<Rightarrow> jsval event list \<Rightarrow> bool" where
  "unemitted t [] = False"
| "unemitted t [ev] = (ev = t)"
| "unemitted t (Next w # evs) = unemitted t evs"
| "unemitted t (ev # evs) = False"

text \<open>A completion or an error.\<close>

fun terminal :: "jsval event \<Rightarrow> bool" where
  "terminal (Next v) = False"
| "terminal ev = True"

text \<open>The sequence of a source that emits \<open>vs\<close> stops at an item that never settles.\<close>

fun stalls :: "jsval list \<Rightarrow> bool" where
  "stalls [] = False"
| "stalls (v # vs) =
     (if v = JUndefined then stalls vs
      else (case await_js v of
              Fulfilled w \<Rightarrow> stalls vs
            | Rejected reason \<Rightarrow> False
            | Unsettled \<Rightarrow> True))"

text \<open>For a source that emits \<open>vs\<close> and then \<open>t\<close>, and a consumer that only pulls: the
  flags record \<open>t\<close> exactly when it has been emitted; what has been received, followed by
  what the values in the queue and those still to be emitted will give, is what is
  expected of the source; a finished generator has delivered all of it, and so has one
  that waits for an item that never settles.\<close>

definition orderly :: "jsval list \<Rightarrow> jsval event \<Rightarrow> config \<Rightarrow> jsval outcome list \<Rightarrow> bool" where
  "orderly vs t c outs =
     (case c of (s, rs) \<Rightarrow>
        set rs \<subseteq> {RNext} \<and>
        (pc s = NotStarted \<or> subscribed s) \<and>
        length (queue s) + length (emitted (source s)) \<le> length vs \<and>
        (if source s = []
         then (completed s \<longleftrightarrow> t = Complete) \<and> error s = (case t of Error e \<Rightarrow> e | _ \<Rightarrow> JNull)
         else unemitted t (source s) \<and> \<not> completed s \<and> error s = JNull) \<and>
        (if pc s = Finished then finishes vs t \<and> (\<exists>d. outs = expected vs t d)
         else if pc s = AtItem then stalls vs \<and> \<not> finishes vs t \<and> outs = expected vs t 0
         else outs @ expected (queue s @ emitted (source s)) t 0 = expected vs t 0 \<and>
              finishes (queue s @ emitted (source s)) t = finishes vs t \<and>
              stalls (queue s @ emitted (source s)) = stalls vs))"

text \<open>The body is past the subscription.\<close>

definition started :: "bridge \<Rightarrow> bool" where
  "started s = (pc s = AtItem \<or> pc s = AtYield \<or> pc s = AtAwait \<or> pc s = Finished)"

text \<open>Nothing more can happen: the generator has finished, or the source has emitted
  everything and the body waits for an item that never settles or for a wake-up that
  cannot come.\<close>

definition settled :: "bridge \<Rightarrow> bool" where
  "settled s =
     (pc s = Finished \<or>
      source s = [] \<and> (pc s = AtItem \<or> pc s = AtAwait \<and> \<not> woken s))"

text \<open>The source has emitted everything and the body is not going to be woken again.\<close>

definition draining :: "bridge \<Rightarrow> bool" where
  "draining s = (settled s \<or> source s = [] \<and> pc s = AtYield)"


section \<open>Lemmas\<close>

subsection \<open>Invariants of a run\<close>

lemma shift_item_Some:
  "shift_item q = Some (item, rest) \<Longrightarrow>
     item \<noteq> JUndefined \<and> defined q = item # defined rest \<and> length rest < length q"
  by (induction q) (auto simp: defined_def split: if_splits)

lemma shift_item_None: "shift_item q = None \<Longrightarrow> defined q = []"
  by (induction q) (auto simp: defined_def split: if_splits)

lemma run_append:
  "run c (xs @ ys) =
     (case run c xs of (c1, o1) \<Rightarrow> (case run c1 ys of (c2, o2) \<Rightarrow> (c2, o1 @ o2)))"
  by (induction xs arbitrary: c) (auto split: prod.splits)

text \<open>An invariant of the configuration and the outcomes so far holds after every
  schedule when the primitive transitions preserve it.\<close>

lemma drive_invariant:
  assumes serve: "\<And>s r rs outs s1 out. P (s, r # rs) outs \<Longrightarrow> \<not> running s \<Longrightarrow>
                     serve s r = (s1, out) \<Longrightarrow> P (s1, rs) (outs @ out_list out)"
  shows "P (s, rs) outs \<Longrightarrow> drive s rs = (s2, rs2, outs2) \<Longrightarrow> P (s2, rs2) (outs @ outs2)"
proof (induction rs arbitrary: s outs outs2)
  case Nil
  then show ?case by simp
next
  case (Cons r rs)
  show ?case
  proof (cases "running s")
    case True
    with Cons.prems show ?thesis by simp
  next
    case False
    obtain s1 out where sv: "serve s r = (s1, out)" by (cases "serve s r")
    obtain s3 rs3 outs3 where dr: "drive s1 rs = (s3, rs3, outs3)" by (cases "drive s1 rs")
    from Cons.prems(2) False sv dr have eq: "s2 = s3" "rs2 = rs3" "outs2 = out_list out @ outs3"
      by (simp_all del: serve.simps)
    from serve [OF Cons.prems(1) False sv] have "P (s1, rs) (outs @ out_list out)" .
    from Cons.IH [OF this dr [folded eq(1,2)]] show ?thesis using eq by simp
  qed
qed

lemma step_invariant:
  assumes enq: "\<And>s rs r outs. P (s, rs) outs \<Longrightarrow> r = RNext \<or> (r = RReturn \<and> ret) \<Longrightarrow> P (s, rs @ [r]) outs"
    and serve: "\<And>s r rs outs s1 out. P (s, r # rs) outs \<Longrightarrow> \<not> running s \<Longrightarrow>
                     serve s r = (s1, out) \<Longrightarrow> P (s1, rs) (outs @ out_list out)"
    and emit: "\<And>s rs outs. P (s, rs) outs \<Longrightarrow> P (emit s, rs) outs"
    and cont: "\<And>s rs outs s1 out. P (s, rs) outs \<Longrightarrow> continue s = (s1, out) \<Longrightarrow>
                     P (s1, rs) (outs @ out_list out)"
    and P: "P c outs" and st: "step c a = (c1, outs1)" and a: "a = Return \<Longrightarrow> ret"
  shows "P c1 (outs @ outs1)"
proof -
  obtain s rs where c: "c = (s, rs)" by (cases c)
  show ?thesis
  proof (cases a)
    case Pull
    obtain s2 rs2 outs2 where dr: "drive s (rs @ [RNext]) = (s2, rs2, outs2)"
      by (cases "drive s (rs @ [RNext])")
    have "P (s, rs @ [RNext]) outs" using enq P c by simp
    from drive_invariant [of P, OF serve this dr] show ?thesis
      using st c Pull dr by simp
  next
    case Return
    obtain s2 rs2 outs2 where dr: "drive s (rs @ [RReturn]) = (s2, rs2, outs2)"
      by (cases "drive s (rs @ [RReturn])")
    have "P (s, rs @ [RReturn]) outs" using enq P c a Return by simp
    from drive_invariant [of P, OF serve this dr] show ?thesis
      using st c Return dr by simp
  next
    case Emit
    then show ?thesis using st c emit P by auto
  next
    case Resume
    obtain s1 out where co: "continue s = (s1, out)" by (cases "continue s")
    obtain s2 rs2 outs2 where dr: "drive s1 rs = (s2, rs2, outs2)" by (cases "drive s1 rs")
    have "P (s1, rs) (outs @ out_list out)" using cont P c co by simp
    from drive_invariant [of P, OF serve this dr] show ?thesis
      using st c Resume co dr by simp
  qed
qed

lemma run_invariant:
  assumes enq: "\<And>s rs r outs. P (s, rs) outs \<Longrightarrow> r = RNext \<or> (r = RReturn \<and> ret) \<Longrightarrow> P (s, rs @ [r]) outs"
    and serve: "\<And>s r rs outs s1 out. P (s, r # rs) outs \<Longrightarrow> \<not> running s \<Longrightarrow>
                     serve s r = (s1, out) \<Longrightarrow> P (s1, rs) (outs @ out_list out)"
    and emit: "\<And>s rs outs. P (s, rs) outs \<Longrightarrow> P (emit s, rs) outs"
    and cont: "\<And>s rs outs s1 out. P (s, rs) outs \<Longrightarrow> continue s = (s1, out) \<Longrightarrow>
                     P (s1, rs) (outs @ out_list out)"
  shows "P c outs \<Longrightarrow> run c sched = (c1, outs1) \<Longrightarrow> (Return \<in> set sched \<Longrightarrow> ret) \<Longrightarrow> P c1 (outs @ outs1)"
proof (induction sched arbitrary: c outs outs1)
  case Nil
  then show ?case by simp
next
  case (Cons a as)
  obtain c2 o2 where st: "step c a = (c2, o2)" by (cases "step c a")
  obtain c3 o3 where rn: "run c2 as = (c3, o3)" by (cases "run c2 as")
  from Cons.prems(2) st rn have eq: "c1 = c3" "outs1 = o2 @ o3" by simp_all
  have "P c2 (outs @ o2)"
    by (rule step_invariant [of P ret, OF enq serve emit cont Cons.prems(1) st]) (use Cons.prems(3) in auto)
  from Cons.IH [OF this rn [folded eq(1)]] Cons.prems(3) show ?case using eq by simp
qed

subsection \<open>The state of the bridge\<close>

lemma loop_cases:
  obtains (yielding) item rest v where "shift_item (queue s) = Some (item, rest)"
      "await_js item = Fulfilled v"
      "loop s = (s\<lparr>queue := rest, pc := AtYield\<rparr>, Some (Yield v))"
  | (rejecting) item rest reason where "shift_item (queue s) = Some (item, rest)"
      "await_js item = Rejected reason"
      "loop s = (finally_block (s\<lparr>queue := rest\<rparr>), Some (Throw reason))"
  | (stalling) item rest where "shift_item (queue s) = Some (item, rest)"
      "await_js item = Unsettled"
      "loop s = (s\<lparr>queue := rest, pc := AtItem\<rparr>, None)"
  | (throwing) "shift_item (queue s) = None" "error s \<noteq> JNull"
      "loop s = (finally_block (s\<lparr>queue := []\<rparr>), Some (Throw (thrown (error s))))"
  | (exiting) "shift_item (queue s) = None" "error s = JNull" "completed s"
      "loop s = (finally_block (s\<lparr>queue := []\<rparr>), Some Done)"
  | (awaiting) "shift_item (queue s) = None" "error s = JNull" "\<not> completed s"
      "loop s = (s\<lparr>queue := [], resolve := True, woken := False, pc := AtAwait\<rparr>, None)"
proof (cases "shift_item (queue s)")
  case None
  then show ?thesis using throwing exiting awaiting by (auto simp: loop_def Let_def)
next
  case (Some p)
  obtain item rest where p: "p = (item, rest)" by (cases p)
  with Some show ?thesis using yielding rejecting stalling
    by (cases "await_js item") (auto simp: loop_def)
qed

lemma wake_fields:
  "queue (wake s) = queue s" "error (wake s) = error s" "completed (wake s) = completed s"
  "source (wake s) = source s" "pc (wake s) = pc s" "resolve (wake s) = resolve s"
  "subscribed (wake s) = subscribed s" "unsubscribed (wake s) = unsubscribed s"
  by (simp_all add: wake_def)

lemma sane_init: "sane (init evs, [])"
  by (simp add: sane_def init_def running_def)

lemma sane_serve:
  assumes "sane (s, r # rs)" "\<not> running s" "serve s r = (s1, out)"
  shows "sane (s1, rs)"
proof (cases "pc s = AtYield \<and> r = RNext")
  case True
  with assms show ?thesis
    by (cases s rule: loop_cases) (auto simp: sane_def finally_block_def)
next
  case False
  with assms show ?thesis
    by (cases "pc s"; cases r) (auto simp: sane_def finally_block_def running_def)
qed

lemma sane_emit: "sane (s, rs) \<Longrightarrow> sane (emit s, rs)"
  by (cases "source s"; cases "hd (source s)")
     (auto simp: sane_def emit_def running_def wake_def on_next_def on_error_def on_complete_def)

lemma sane_continue:
  assumes "sane (s, rs)" "continue s = (s1, out)"
  shows "sane (s1, rs)"
proof (cases "pc s = Subscribing \<or> pc s = AtAwait \<and> woken s")
  case False
  with assms show ?thesis by (auto simp: continue_def)
next
  case True
  then show ?thesis
  proof
    assume "pc s = Subscribing"
    with assms show ?thesis
      by (cases s rule: loop_cases)
         (auto simp: continue_def sane_def finally_block_def running_def)
  next
    assume "pc s = AtAwait \<and> woken s"
    with assms show ?thesis
      by (cases "s\<lparr>resolve := False\<rparr>" rule: loop_cases)
         (auto simp: continue_def sane_def finally_block_def running_def)
  qed
qed

lemma sane_run:
  assumes "sane c" "run c sched = (c1, outs)"
  shows "sane c1"
proof -
  have "(\<lambda>c outs. sane c) c1 ([] @ outs)"
  proof (rule run_invariant [where P = "\<lambda>c outs. sane c" and ret = True, OF _ _ _ _ assms(1) assms(2)])
    fix s rs r and outs :: "jsval outcome list"
    assume "sane (s, rs)" 
    then show "sane (s, rs @ [r])" by (auto simp: sane_def)
  next
    fix s r rs s1 out
    assume "sane (s, r # rs)" "\<not> running s" "serve s r = (s1, out)"
    then show "sane (s1, rs)" by (rule sane_serve)
  next
    fix s rs assume "sane (s, rs)" then show "sane (emit s, rs)" by (rule sane_emit)
  next
    fix s rs s1 out
    assume "sane (s, rs)" "continue s = (s1, out)"
    then show "sane (s1, rs)" by (rule sane_continue)
  next
    show "True" by simp
  qed
  then show ?thesis by simp
qed

lemma idle_drive: "drive s rs = (s2, rs2, outs) \<Longrightarrow> idle (s2, rs2)"
proof (induction rs arbitrary: s s2 rs2 outs)
  case Nil
  then show ?case by (simp add: idle_def)
next
  case (Cons r rs)
  show ?case
  proof (cases "running s")
    case True
    with Cons.prems show ?thesis by (simp add: idle_def)
  next
    case False
    obtain s1 out where sv: "serve s r = (s1, out)" by (cases "serve s r")
    obtain s3 rs3 outs3 where dr: "drive s1 rs = (s3, rs3, outs3)" by (cases "drive s1 rs")
    from Cons.prems False sv dr have "s2 = s3" "rs2 = rs3" by (simp_all del: serve.simps)
    with Cons.IH [OF dr] show ?thesis by simp
  qed
qed

lemma pc_emit: "pc (emit s) = pc s"
  by (cases "source s"; cases "hd (source s)")
     (auto simp: emit_def wake_def on_next_def on_error_def on_complete_def)

lemma idle_step:
  assumes "idle c" "step c a = (c1, outs)"
  shows "idle c1"
proof (cases c)
  case (Pair s rs)
  show ?thesis
  proof (cases a)
    case Emit
    with assms Pair show ?thesis by (auto simp: idle_def running_def pc_emit)
  qed (use assms Pair in \<open>auto split: prod.splits dest: idle_drive\<close>)
qed

lemma idle_run: "idle c \<Longrightarrow> run c sched = (c1, outs) \<Longrightarrow> idle c1"
  by (induction sched arbitrary: c outs) (auto split: prod.splits dest: idle_step)

subsection \<open>One outcome for each request\<close>

lemma loop_count: "loop s = (s1, out) \<Longrightarrow> length (out_list out) + inflight s1 = 1"
  by (cases s rule: loop_cases) (auto simp: inflight_def running_def finally_block_def)

lemma serve_count:
  assumes "\<not> running s" "serve s r = (s1, out)"
  shows "length (out_list out) + inflight s1 = 1"
proof (cases "pc s = AtYield \<and> r = RNext")
  case True
  with assms show ?thesis by (auto dest: loop_count)
next
  case False
  with assms show ?thesis
    by (cases "pc s"; cases r) (auto simp: inflight_def running_def finally_block_def)
qed

lemma continue_count:
  assumes "continue s = (s1, out)"
  shows "length (out_list out) + inflight s1 = inflight s"
  using assms loop_count [of s s1 out] loop_count [of "s\<lparr>resolve := False\<rparr>" s1 out]
  by (auto simp: continue_def inflight_def running_def split: if_splits)

lemma drive_count:
  "drive s rs = (s2, rs2, outs) \<Longrightarrow>
     length outs + length rs2 + inflight s2 = length rs + inflight s"
proof (induction rs arbitrary: s s2 rs2 outs)
  case Nil
  then show ?case by simp
next
  case (Cons r rs)
  show ?case
  proof (cases "running s")
    case True
    with Cons.prems show ?thesis by simp
  next
    case False
    obtain s1 out where sv: "serve s r = (s1, out)" by (cases "serve s r")
    obtain s3 rs3 outs3 where dr: "drive s1 rs = (s3, rs3, outs3)" by (cases "drive s1 rs")
    from Cons.prems False sv dr have eq: "s2 = s3" "rs2 = rs3" "outs = out_list out @ outs3"
      by (simp_all del: serve.simps)
    from Cons.IH [OF dr] serve_count [OF False sv] False eq show ?thesis
      by (simp add: inflight_def)
  qed
qed

lemma step_count:
  assumes "step (s, rs) a = ((s1, rs1), outs)"
  shows "length outs + length rs1 + inflight s1 = length rs + inflight s + requests [a]"
proof (cases a)
  case Pull
  with assms show ?thesis
    by (auto simp: requests_def split: prod.splits dest!: drive_count)
next
  case Return
  with assms show ?thesis
    by (auto simp: requests_def split: prod.splits dest!: drive_count)
next
  case Emit
  with assms show ?thesis
    by (auto simp: requests_def inflight_def running_def pc_emit)
next
  case Resume
  with assms show ?thesis
    by (auto simp: requests_def split: prod.splits dest!: drive_count continue_count)
qed

lemma requests_Cons: "requests (a # as) = requests [a] + requests as"
  by (simp add: requests_def)

lemma run_count:
  "run (s, rs) sched = ((s1, rs1), outs) \<Longrightarrow>
     length outs + length rs1 + inflight s1 = length rs + inflight s + requests sched"
proof (induction sched arbitrary: s rs outs)
  case Nil
  then show ?case by (simp add: requests_def)
next
  case (Cons a as)
  obtain s2 rs2 o2 where st: "step (s, rs) a = ((s2, rs2), o2)"
    by (cases "step (s, rs) a") auto
  obtain o3 where rn: "run (s2, rs2) as = ((s1, rs1), o3)" and outs: "outs = o2 @ o3"
    using Cons.prems st by (auto split: prod.splits)
  from Cons.IH [OF rn] step_count [OF st] outs show ?case
    by (simp add: requests_Cons [of a as])
qed

lemma requests_le: "requests sched \<le> length sched"
  by (simp add: requests_def)

lemma outcomes_le_requests:
  "length (snd (observableToAsyncGenerator evs sched)) \<le> requests sched"
proof -
  obtain s1 rs1 outs where rn: "run (init evs, []) sched = ((s1, rs1), outs)"
    by (cases "run (init evs, []) sched") auto
  from run_count [OF rn] have "length outs \<le> requests sched"
    by (simp add: inflight_def running_def init_def)
  with rn show ?thesis by (simp add: observableToAsyncGenerator_def)
qed

subsection \<open>A source that emits values and then terminates\<close>

lemma emitted_script: "terminal t \<Longrightarrow> emitted (map Next vs @ [t]) = vs"
  by (induction vs) (auto elim: terminal.elims)

lemma emitted_terminal: "terminal t \<Longrightarrow> emitted [t] = []"
  by (cases t) auto

lemma unemitted_script: "terminal t \<Longrightarrow> unemitted t (map Next vs @ [t])"
proof (induction vs)
  case Nil
  then show ?case by simp
next
  case (Cons v vs)
  then show ?case by (cases "map Next vs @ [t]") auto
qed

lemma unemitted_Cons:
  assumes "unemitted t (ev # evs)" "terminal t"
  shows "evs = [] \<and> ev = t \<or> evs \<noteq> [] \<and> (\<exists>w. ev = Next w) \<and> unemitted t evs"
  using assms by (cases evs; cases ev) auto

lemma unemitted_length:
  "unemitted t src \<Longrightarrow> terminal t \<Longrightarrow> length src = Suc (length (emitted src))"
  by (induction t src rule: unemitted.induct) (auto elim: terminal.elims)

text \<open>The expected outcomes and the items of the queue.\<close>

lemma expected_shift_None: "shift_item q = None \<Longrightarrow> expected (q @ x) t n = expected x t n"
  by (induction q) (auto split: if_splits)

lemma finishes_shift_None: "shift_item q = None \<Longrightarrow> finishes (q @ x) t = finishes x t"
  by (induction q) (auto split: if_splits)

lemma expected_shift_Some:
  "shift_item q = Some (item, rest) \<Longrightarrow>
     expected (q @ x) t n =
       (case await_js item of
          Fulfilled w \<Rightarrow> Yield w # expected (rest @ x) t n
        | Rejected reason \<Rightarrow> Throw reason # replicate n Done
        | Unsettled \<Rightarrow> [])"
  by (induction q) (auto split: if_splits)

lemma finishes_shift_Some:
  "shift_item q = Some (item, rest) \<Longrightarrow>
     finishes (q @ x) t =
       (case await_js item of
          Fulfilled w \<Rightarrow> finishes (rest @ x) t
        | Rejected reason \<Rightarrow> True
        | Unsettled \<Rightarrow> False)"
  by (induction q) (auto split: if_splits)

lemma stalls_shift_None: "shift_item q = None \<Longrightarrow> stalls (q @ x) = stalls x"
  by (induction q) (auto split: if_splits)

lemma stalls_shift_Some:
  "shift_item q = Some (item, rest) \<Longrightarrow>
     stalls (q @ x) =
       (case await_js item of
          Fulfilled w \<Rightarrow> stalls (rest @ x)
        | Rejected reason \<Rightarrow> False
        | Unsettled \<Rightarrow> True)"
  by (induction q) (auto split: if_splits)

lemma stalls_unfinished: "stalls vs \<Longrightarrow> \<not> finishes vs t"
  by (induction vs) (auto split: settle.splits if_splits)

lemma shift_item_shorter: "shift_item q = Some (item, rest) \<Longrightarrow> length rest < length q"
  by (induction q) (auto split: if_splits)

lemma expected_Suc: "finishes vs t \<Longrightarrow> expected vs t (Suc n) = expected vs t n @ [Done]"
  by (induction vs)
     (auto simp: replicate_append_same split: option.splits settle.splits if_splits)

lemma expected_unfinished: "\<not> finishes vs t \<Longrightarrow> expected vs t n = expected vs t 0"
  by (induction vs) (auto split: option.splits settle.splits)

lemma expected_longer: "finishes vs t \<Longrightarrow> n < length (expected vs t n)"
  by (induction vs) (auto split: option.splits settle.splits if_splits)

lemma expected_mono: "m \<le> n \<Longrightarrow> prefix (expected vs t m) (expected vs t n)"
proof (induction vs)
  case Nil
  have "replicate n Done = replicate m Done @ replicate (n - m) (Done :: jsval outcome)"
    using Nil by (simp add: replicate_add [symmetric])
  then have "prefix (replicate m (Done :: jsval outcome)) (replicate n Done)"
    by (metis prefixI)
  then show ?case by (auto split: option.splits)
next
  case (Cons v vs)
  have "replicate n Done = replicate m Done @ replicate (n - m) (Done :: jsval outcome)"
    using Cons.prems by (simp add: replicate_add [symmetric])
  then have "prefix (replicate m (Done :: jsval outcome)) (replicate n Done)"
    by (metis prefixI)
  with Cons show ?case by (auto split: settle.splits)
qed

lemma orderly_init: "terminal t \<Longrightarrow> orderly vs t (init (map Next vs @ [t]), []) []"
  using unemitted_script [of t vs]
  by (simp add: orderly_def init_def emitted_script)

lemma orderly_loop:
  assumes ord: "orderly vs t (s, rs) outs" and t: "terminal t"
    and nf: "pc s \<noteq> Finished" "pc s \<noteq> AtItem" "pc s \<noteq> NotStarted" and lp: "loop s = (s1, out)"
  shows "orderly vs t (s1, rs) (outs @ out_list out)"
proof -
  let ?x = "emitted (source s)"
  from ord nf have eq: "outs @ expected (queue s @ ?x) t 0 = expected vs t 0"
    and fin: "finishes (queue s @ ?x) t = finishes vs t"
    and stl: "stalls (queue s @ ?x) = stalls vs"
    by (simp_all add: orderly_def)
  show ?thesis
  proof (cases s rule: loop_cases)
    case (yielding item rest v)
    from expected_shift_Some [OF yielding(1), of ?x t 0] finishes_shift_Some [OF yielding(1), of ?x t]
      stalls_shift_Some [OF yielding(1), of ?x] stl
      shift_item_shorter [OF yielding(1)] yielding(2,3) ord nf lp eq fin
    show ?thesis by (auto simp: orderly_def)
  next
    case (rejecting item rest reason)
    from expected_shift_Some [OF rejecting(1), of ?x t 0] finishes_shift_Some [OF rejecting(1), of ?x t]
      stalls_shift_Some [OF rejecting(1), of ?x] stl
      rejecting(2) eq fin
    have "outs @ [Throw reason] = expected vs t 0" "finishes vs t" by auto
    with shift_item_shorter [OF rejecting(1)] rejecting(3) ord nf lp show ?thesis
      by (auto simp: orderly_def finally_block_def)
  next
    case (stalling item rest)
    from expected_shift_Some [OF stalling(1), of ?x t 0] finishes_shift_Some [OF stalling(1), of ?x t]
      stalls_shift_Some [OF stalling(1), of ?x] stl
      stalling(2) eq fin
    have "outs = expected vs t 0" "\<not> finishes vs t" "stalls vs" by auto
    with shift_item_shorter [OF stalling(1)] stalling(3) ord nf lp show ?thesis
      by (auto simp: orderly_def)
  next
    case throwing
    with ord have src: "source s = []" and e: "t = Error (error s)"
      by (auto simp: orderly_def split: if_splits event.splits)
    from expected_shift_None [OF throwing(1), of ?x t 0] finishes_shift_None [OF throwing(1), of ?x t]
      stalls_shift_None [OF throwing(1), of ?x] stl
      eq fin src e throwing(2)
    have "outs @ [Throw (thrown (error s))] = expected vs t 0" "finishes vs t" by auto
    with throwing(3) ord nf lp src show ?thesis
      by (auto simp: orderly_def finally_block_def)
  next
    case exiting
    with ord have src: "source s = []" and e: "t = Complete"
      by (auto simp: orderly_def split: if_splits event.splits)
    from expected_shift_None [OF exiting(1), of ?x t 0] finishes_shift_None [OF exiting(1), of ?x t]
      stalls_shift_None [OF exiting(1), of ?x] stl
      eq fin src e
    have "outs @ [Done] = expected vs t 0" "finishes vs t" by auto
    with exiting(4) ord nf lp src show ?thesis
      by (auto simp: orderly_def finally_block_def)
  next
    case awaiting
    from expected_shift_None [OF awaiting(1), of ?x t 0] finishes_shift_None [OF awaiting(1), of ?x t]
      stalls_shift_None [OF awaiting(1), of ?x] stl
      eq fin
    have "outs @ expected ?x t 0 = expected vs t 0" "finishes ?x t = finishes vs t"
      "stalls ?x = stalls vs" by auto
    with awaiting(4) ord nf lp show ?thesis
      by (auto simp: orderly_def)
  qed
qed

lemma orderly_resolve: "orderly vs t (s\<lparr>resolve := b\<rparr>, rs) outs = orderly vs t (s, rs) outs"
  by (simp add: orderly_def)

lemma orderly_serve:
  assumes ord: "orderly vs t (s, r # rs) outs" and t: "terminal t"
    and nr: "\<not> running s" and sv: "serve s r = (s1, out)"
  shows "orderly vs t (s1, rs) (outs @ out_list out)"
proof -
  from ord have r: "r = RNext" and ord': "orderly vs t (s, rs) outs"
    by (auto simp: orderly_def)
  show ?thesis
  proof (cases "pc s")
    case AtYield
    with sv r have "loop s = (s1, out)" by simp
    from orderly_loop [OF ord' t _ _ _ this] AtYield show ?thesis by simp
  next
    case Finished
    with ord' obtain d where f: "finishes vs t" and o: "outs = expected vs t d"
      by (auto simp: orderly_def)
    then have "outs @ [Done] = expected vs t (Suc d)" by (simp add: expected_Suc)
    with Finished sv r ord' f show ?thesis
      unfolding orderly_def by auto
  next
    case NotStarted
    with sv r ord' show ?thesis by (auto simp: orderly_def)
  next
    case Subscribing
    with nr show ?thesis by (simp add: running_def)
  next
    case AtAwait
    with nr show ?thesis by (simp add: running_def)
  next
    case AtItem
    with nr show ?thesis by (simp add: running_def)
  qed
qed

lemma orderly_emit:
  assumes ord: "orderly vs t (s, rs) outs" and t: "terminal t"
  shows "orderly vs t (emit s, rs) outs"
proof (cases "source s")
  case Nil
  with assms show ?thesis by (simp add: emit_def)
next
  case (Cons ev rest)
  show ?thesis
  proof (cases "pc s = Subscribing \<or> pc s = AtItem \<or> pc s = AtYield \<or> pc s = AtAwait")
    case False
    then show ?thesis using ord by (simp add: emit_def)
  next
    case True
    from ord Cons have un: "unemitted t (ev # rest)" and fl: "\<not> completed s" "error s = JNull"
      by (auto simp: orderly_def)
    from unemitted_Cons [OF un t] show ?thesis
    proof
      assume "rest = [] \<and> ev = t"
      with True Cons ord t fl emitted_terminal [OF t] show ?thesis
        by (cases t)
           (auto simp: emit_def orderly_def wake_fields on_next_def on_error_def on_complete_def)
    next
      assume "rest \<noteq> [] \<and> (\<exists>w. ev = Next w) \<and> unemitted t rest"
      with True Cons ord t fl show ?thesis
        by (auto simp: emit_def orderly_def wake_fields on_next_def on_error_def on_complete_def)
    qed
  qed
qed

lemma orderly_continue:
  assumes ord: "orderly vs t (s, rs) outs" and t: "terminal t"
    and co: "continue s = (s1, out)"
  shows "orderly vs t (s1, rs) (outs @ out_list out)"
proof (cases "pc s = Subscribing")
  case True
  with co have "loop s = (s1, out)" by (simp add: continue_def)
  from orderly_loop [OF ord t _ _ _ this] True show ?thesis by simp
next
  case False
  show ?thesis
  proof (cases "pc s = AtAwait \<and> woken s")
    case True
    with co False have lp: "loop (s\<lparr>resolve := False\<rparr>) = (s1, out)" by (simp add: continue_def)
    show ?thesis
      by (rule orderly_loop [OF _ t _ _ _ lp]) (use ord True in \<open>simp_all add: orderly_resolve\<close>)
  next
    case F: False
    with co False ord show ?thesis by (auto simp: continue_def)
  qed
qed

lemma orderly_run_from:
  assumes t: "terminal t" and tr: "orderly vs t c outs0" and rn: "run c sched = (c1, outs)"
    and nr: "Return \<notin> set sched"
  shows "orderly vs t c1 (outs0 @ outs)"
proof (rule run_invariant [where P = "orderly vs t" and ret = False, OF _ _ _ _ tr rn])
  fix s rs r and outs :: "jsval outcome list"
  assume "orderly vs t (s, rs) outs" "r = RNext \<or> r = RReturn \<and> False"
  then show "orderly vs t (s, rs @ [r]) outs"
    by (auto simp: orderly_def)
next
  fix s r rs outs s1 out
  assume "orderly vs t (s, r # rs) outs" "\<not> running s" "serve s r = (s1, out)"
  then show "orderly vs t (s1, rs) (outs @ out_list out)"
    using orderly_serve [OF _ t] by blast
next
  fix s rs outs
  assume "orderly vs t (s, rs) outs"
  then show "orderly vs t (emit s, rs) outs"
    using orderly_emit [OF _ t] by blast
next
  fix s rs outs s1 out
  assume "orderly vs t (s, rs) outs" "continue s = (s1, out)"
  then show "orderly vs t (s1, rs) (outs @ out_list out)"
    using orderly_continue [OF _ t] by blast
next
  assume "Return \<in> set sched"
  with nr show False by simp
qed

lemma orderly_run:
  assumes "terminal t" "run (init (map Next vs @ [t]), []) sched = (c1, outs)"
    "Return \<notin> set sched"
  shows "orderly vs t c1 outs"
  using orderly_run_from [OF assms(1) orderly_init [OF assms(1)] assms(2,3)] by simp

subsection \<open>Running to the end\<close>

lemma loop_pc: "loop s = (s1, out) \<Longrightarrow> started s1"
  by (cases s rule: loop_cases) (auto simp: started_def finally_block_def)

lemma serve_started: "started s \<Longrightarrow> serve s r = (s1, out) \<Longrightarrow> started s1"
  by (cases "pc s"; cases r) (auto simp: started_def finally_block_def dest: loop_pc)

lemma drive_started: "drive s rs = (s2, rs2, outs) \<Longrightarrow> started s \<Longrightarrow> started s2"
proof (induction rs arbitrary: s s2 rs2 outs)
  case Nil
  then show ?case by simp
next
  case (Cons r rs)
  show ?case
  proof (cases "running s")
    case True
    with Cons.prems show ?thesis by simp
  next
    case False
    obtain s1 out where sv: "serve s r = (s1, out)" by (cases "serve s r")
    obtain s3 rs3 outs3 where dr: "drive s1 rs = (s3, rs3, outs3)" by (cases "drive s1 rs")
    from Cons.prems False sv dr have eq: "s2 = s3" by (simp del: serve.simps)
    from Cons.IH [OF dr serve_started [OF Cons.prems(2) sv]] eq show ?thesis by simp
  qed
qed

lemma drive_running: "running s \<Longrightarrow> drive s rs = (s, rs, [])"
  by (cases rs) auto

lemma continue_started:
  "continue s = (s1, out) \<Longrightarrow> pc s \<noteq> NotStarted \<Longrightarrow> started s1"
  by (cases "pc s") (auto simp: continue_def started_def dest: loop_pc split: if_splits)

lemma started_step: "started s \<Longrightarrow> step (s, rs) a = ((s1, rs1), outs) \<Longrightarrow> started s1"
proof (cases a)
  case Emit
  assume "started s" "step (s, rs) a = ((s1, rs1), outs)"
  with Emit show ?thesis by (auto simp: started_def pc_emit)
next
  case Resume
  assume "started s" "step (s, rs) a = ((s1, rs1), outs)"
  with Resume show ?thesis
    by (auto split: prod.splits dest!: continue_started drive_started simp: started_def)
qed (auto split: prod.splits dest: drive_started)

text \<open>After a pull and a continuation the body has passed the subscription.\<close>

lemma started_Pull_Resume:
  assumes idle: "idle (s, rs)" and rn: "run (s, rs) [Pull, Resume] = ((s1, rs1), outs)"
  shows "started s1"
proof -
  obtain s2 rs2 o2 where st: "step (s, rs) Pull = ((s2, rs2), o2)"
    by (cases "step (s, rs) Pull") auto
  obtain o3 where st2: "step (s2, rs2) Resume = ((s1, rs1), o3)"
    using rn st by (auto split: prod.splits)
  have ns: "pc s2 \<noteq> NotStarted"
  proof (cases "pc s = NotStarted \<or> pc s = Subscribing")
    case True
    then show ?thesis
    proof
      assume n: "pc s = NotStarted"
      with idle have "rs = []" by (auto simp: idle_def running_def)
      with n st show ?thesis by (auto simp: running_def)
    next
      assume "pc s = Subscribing"
      with st show ?thesis by (simp add: drive_running running_def)
    qed
  next
    case False
    then have "started s" by (cases "pc s") (auto simp: started_def)
    from started_step [OF this st] show ?thesis by (auto simp: started_def)
  qed
  obtain s3 out where co: "continue s2 = (s3, out)" by (cases "continue s2")
  from continue_started [OF co ns] have "started s3" .
  with st2 co show ?thesis by (auto split: prod.splits dest: drive_started)
qed

text \<open>The source emits its remaining events.\<close>

lemma run_Emits: "run (s, rs) (replicate n Emit) = (((emit ^^ n) s, rs), [])"
  by (induction n arbitrary: s) (auto simp: funpow_swap1)

lemma source_emit:
  "pc s = AtItem \<or> pc s = AtYield \<or> pc s = AtAwait \<Longrightarrow> source (emit s) = tl (source s)"
  by (cases "source s"; cases "hd (source s)")
     (auto simp: emit_def wake_fields on_next_def on_error_def on_complete_def)

lemma source_emits:
  "pc s = AtItem \<or> pc s = AtYield \<or> pc s = AtAwait \<Longrightarrow> length (source s) \<le> n \<Longrightarrow>
     source ((emit ^^ n) s) = []"
proof (induction n arbitrary: s)
  case 0
  then show ?case by simp
next
  case (Suc n)
  have "source ((emit ^^ n) (emit s)) = []"
    by (rule Suc.IH) (use Suc.prems in \<open>auto simp: pc_emit source_emit\<close>)
  then show ?case by (simp add: funpow_swap1)
qed

lemma pc_emits: "pc ((emit ^^ n) s) = pc s"
  by (induction n) (auto simp: pc_emit)

text \<open>A settled bridge does not change.\<close>

lemma drive_Finished:
  "pc s = Finished \<Longrightarrow> drive s rs = (s, [], replicate (length rs) Done)"
  by (induction rs) (auto simp: running_def)

lemma step_settled:
  assumes "settled s" "step (s, rs) a = ((s1, rs1), outs)"
  shows "s1 = s \<and> (pc s \<noteq> Finished \<longrightarrow> outs = [])"
proof (cases "pc s = Finished")
  case True
  with assms(2) show ?thesis
    by (cases a) (auto simp: drive_Finished emit_def continue_def)
next
  case False
  with assms(1) have r: "running s" and src: "source s = []"
    and w: "pc s = AtItem \<or> pc s = AtAwait \<and> \<not> woken s"
    by (auto simp: settled_def running_def)
  from assms(2) r src w False show ?thesis
    by (cases a) (auto simp: drive_running emit_def continue_def)
qed

lemma run_settled:
  "settled s \<Longrightarrow> run (s, rs) sched = ((s1, rs1), outs) \<Longrightarrow>
     s1 = s \<and> (pc s \<noteq> Finished \<longrightarrow> outs = [])"
proof (induction sched arbitrary: rs outs)
  case Nil
  then show ?case by simp
next
  case (Cons a as)
  obtain s2 rs2 o2 where st: "step (s, rs) a = ((s2, rs2), o2)"
    by (cases "step (s, rs) a") auto
  obtain o3 where rn: "run (s2, rs2) as = ((s1, rs1), o3)" and outs: "outs = o2 @ o3"
    using Cons.prems st by (auto split: prod.splits)
  from step_settled [OF Cons.prems(1) st] Cons.IH [OF Cons.prems(1)] rn outs show ?case by simp
qed

text \<open>With everything emitted, each turn of the loop shortens the queue or settles.\<close>

lemma loop_draining:
  assumes "source s = []" "loop s = (s1, out)"
  shows "draining s1 \<and> (pc s1 = AtYield \<longrightarrow> length (queue s1) < length (queue s))"
  using assms shift_item_shorter [of "queue s"]
  by (cases s rule: loop_cases) (auto simp: draining_def settled_def finally_block_def)

lemma serve_draining:
  assumes "draining s" "serve s r = (s1, out)"
  shows "draining s1"
proof (cases "pc s = AtYield")
  case True
  with assms(1) have src: "source s = []" by (auto simp: draining_def settled_def)
  show ?thesis
  proof (cases r)
    case RNext
    with True assms(2) have "loop s = (s1, out)" by simp
    from loop_draining [OF src this] show ?thesis by simp
  next
    case RReturn
    with True assms(2) show ?thesis by (auto simp: draining_def settled_def finally_block_def)
  qed
next
  case False
  with assms show ?thesis
    by (cases "pc s"; cases r) (auto simp: draining_def settled_def)
qed

lemma drive_draining: "drive s rs = (s2, rs2, outs) \<Longrightarrow> draining s \<Longrightarrow> draining s2"
proof (induction rs arbitrary: s s2 rs2 outs)
  case Nil
  then show ?case by simp
next
  case (Cons r rs)
  show ?case
  proof (cases "running s")
    case True
    with Cons.prems show ?thesis by simp
  next
    case False
    obtain s1 out where sv: "serve s r = (s1, out)" by (cases "serve s r")
    obtain s3 rs3 outs3 where dr: "drive s1 rs = (s3, rs3, outs3)" by (cases "drive s1 rs")
    from Cons.prems False sv dr have eq: "s2 = s3" by (simp del: serve.simps)
    from Cons.IH [OF dr serve_draining [OF Cons.prems(2) sv]] eq show ?thesis by simp
  qed
qed

lemma draining_Resume:
  assumes "pc s = Finished \<or> source s = []" "started s"
    and "step (s, rs) Resume = ((s1, rs1), outs)"
  shows "draining s1"
proof -
  obtain s2 out where co: "continue s = (s2, out)" by (cases "continue s")
  have "draining s2"
  proof (cases "pc s = AtAwait \<and> woken s")
    case True
    with co have lp: "loop (s\<lparr>resolve := False\<rparr>) = (s2, out)" by (simp add: continue_def)
    from True assms(1) have "source (s\<lparr>resolve := False\<rparr>) = []" by auto
    from loop_draining [OF this lp] show ?thesis by simp
  next
    case False
    with assms(1,2) co show ?thesis
      by (auto simp: continue_def started_def draining_def settled_def)
  qed
  with assms(3) co show ?thesis by (auto split: prod.splits dest: drive_draining)
qed

lemma draining_Pulls:
  assumes "draining s" "length (queue s) < n" "pc s = AtYield \<longrightarrow> rs = []"
    and "run (s, rs) (replicate n Pull) = ((s1, rs1), outs)"
  shows "settled s1"
  using assms
proof (induction n arbitrary: s rs outs)
  case 0
  then show ?case by simp
next
  case (Suc n)
  show ?case
  proof (cases "pc s = AtYield")
    case False
    with Suc.prems(1) have st: "settled s" by (auto simp: draining_def)
    from run_settled [OF st Suc.prems(4)] st show ?thesis by simp
  next
    case True
    with Suc.prems(1,3) have rs: "rs = []" and src: "source s = []"
      by (auto simp: draining_def settled_def)
    obtain s2 out where lp: "loop s = (s2, out)" by (cases "loop s")
    with True rs have st: "step (s, rs) Pull = ((s2, []), out_list out)"
      by (simp add: running_def)
    with Suc.prems(4) obtain o3 where rn: "run (s2, []) (replicate n Pull) = ((s1, rs1), o3)"
      by (auto split: prod.splits simp del: step.simps)
    from loop_draining [OF src lp]
    have d2: "draining s2" and sh: "pc s2 = AtYield \<longrightarrow> length (queue s2) < length (queue s)"
      by simp_all
    show ?thesis
    proof (cases "pc s2 = AtYield")
      case True
      with sh Suc.prems(2) have "length (queue s2) < n" by simp
      from Suc.IH [OF d2 this _ rn] show ?thesis by simp
    next
      case False
      with d2 have st2: "settled s2" by (auto simp: draining_def)
      from run_settled [OF st2 rn] st2 show ?thesis by simp
    qed
  qed
qed

lemma run_appendE:
  assumes "run c (xs @ ys) = (c2, outs)"
  obtains c1 o1 o2 where "run c xs = (c1, o1)" "run c1 ys = (c2, o2)" "outs = o1 @ o2"
  using assms by (auto simp: run_append split: prod.splits)

lemma flush_split:
  "sched @ flush n = (sched @ [Pull, Resume] @ replicate n Emit) @ [Resume] @ replicate n Pull"
  by (simp add: flush_def)

text \<open>After a flush the bridge is settled.\<close>

lemma flush_settled:
  assumes t: "terminal t" and nr: "Return \<notin> set sched" and n: "length vs < n"
    and rn: "run (init (map Next vs @ [t]), []) (sched @ flush n) = ((s, rs), outs)"
  shows "settled s"
proof -
  let ?c0 = "(init (map Next vs @ [t]), [])"
  from rn [unfolded flush_split] obtain cC oC oE
    where C: "run ?c0 (sched @ [Pull, Resume] @ replicate n Emit) = (cC, oC)"
      and E: "run cC ([Resume] @ replicate n Pull) = ((s, rs), oE)"
    by (rule run_appendE)
  from C have C': "run ?c0 ((sched @ [Pull, Resume]) @ replicate n Emit) = (cC, oC)" by simp
  from C' obtain cB oB oC' where B: "run ?c0 (sched @ [Pull, Resume]) = (cB, oB)"
    and BC: "run cB (replicate n Emit) = (cC, oC')"
    by (rule run_appendE)
  from B obtain cA oA oB' where A: "run ?c0 sched = (cA, oA)"
    and AB: "run cA [Pull, Resume] = (cB, oB')"
    by (rule run_appendE)
  obtain sA rsA where cA: "cA = (sA, rsA)" by (cases cA)
  obtain sB rsB where cB: "cB = (sB, rsB)" by (cases cB)
  obtain sC rsC where cC: "cC = (sC, rsC)" by (cases cC)
  have i0: "idle ?c0" by (simp add: idle_def)
  from idle_run [OF i0 A] have "idle (sA, rsA)" using cA by simp
  from started_Pull_Resume [OF this] AB cA cB have stB: "started sB" by simp
  have nrB: "Return \<notin> set (sched @ [Pull, Resume])" using nr by simp
  from orderly_run [OF t B nrB] have trB: "orderly vs t (sB, rsB) oB" using cB by simp
  from BC cB cC have eq: "sC = (emit ^^ n) sB" "rsC = rsB" by (simp_all add: run_Emits)
  have stC: "started sC" using stB eq by (simp add: started_def pc_emits)
  have srcC: "pc sC = Finished \<or> source sC = []"
  proof (cases "pc sB = Finished")
    case True
    with eq show ?thesis by (simp add: pc_emits)
  next
    case False
    with stB have pcB: "pc sB = AtItem \<or> pc sB = AtYield \<or> pc sB = AtAwait"
      by (auto simp: started_def)
    have "length (source sB) \<le> n"
    proof (cases "source sB = []")
      case True
      then show ?thesis by simp
    next
      case F: False
      with trB have "unemitted t (source sB)" by (auto simp: orderly_def)
      from unemitted_length [OF this t] trB n show ?thesis
        by (auto simp: orderly_def)
    qed
    from source_emits [OF pcB this] eq show ?thesis by simp
  qed
  have nrC: "Return \<notin> set (sched @ [Pull, Resume] @ replicate n Emit)" using nr by simp
  from orderly_run [OF t C nrC] have trC: "orderly vs t (sC, rsC) oC" using cC by simp
  from idle_run [OF i0 C] have idC: "idle (sC, rsC)" using cC by simp
  from E obtain cD oD oP where D: "run cC [Resume] = (cD, oD)"
    and P: "run cD (replicate n Pull) = ((s, rs), oP)"
    by (rule run_appendE)
  obtain sD rsD where cD: "cD = (sD, rsD)" by (cases cD)
  from D cC cD have stD: "step (sC, rsC) Resume = ((sD, rsD), oD)"
    by (auto split: prod.splits)
  from draining_Resume [OF srcC stC stD] have dD: "draining sD" .
  have nrD: "Return \<notin> set [Resume]" by simp
  from orderly_run_from [OF t trC D [unfolded cC cD] nrD]
  have trD: "orderly vs t (sD, rsD) (oC @ oD)" .
  from idle_run [OF idC D [unfolded cC cD]] have rsD: "pc sD = AtYield \<longrightarrow> rsD = []"
    by (auto simp: idle_def running_def)
  from trD n have "length (queue sD) < n" by (auto simp: orderly_def)
  from draining_Pulls [OF dD this rsD P [unfolded cD]] show ?thesis .
qed

text \<open>What a settled bridge has delivered.\<close>

lemma settled_outcomes:
  assumes t: "terminal t" and st: "settled s" and sn: "sane (s, rs)"
    and ord: "orderly vs t (s, rs) outs"
  shows "(pc s = Finished \<longleftrightarrow> finishes vs t) \<and> (pc s = AtItem \<longleftrightarrow> stalls vs) \<and>
         (\<exists>d. outs = expected vs t d)"
proof (cases "pc s = Finished")
  case True
  with ord show ?thesis by (auto simp: orderly_def dest: stalls_unfinished)
next
  case False
  show ?thesis
  proof (cases "pc s = AtItem")
    case True
    with ord show ?thesis by (auto simp: orderly_def)
  next
    case F: False
    with False st have w: "pc s = AtAwait" "\<not> woken s" "source s = []"
      by (auto simp: settled_def)
    with sn have q: "queue s = []" "error s = JNull" "\<not> completed s" by (auto simp: sane_def)
    with w ord t have "final_outcome t = None"
      by (cases t) (auto simp: orderly_def)
    with w q ord False F show ?thesis by (auto simp: orderly_def)
  qed
qed

subsection \<open>What the consumer receives\<close>

text \<open>Without abandonment, what the consumer has received is an initial part of what is
  expected of the source.\<close>

lemma outcomes_prefix:
  assumes t: "terminal t" and nr: "Return \<notin> set sched"
  shows "prefix (snd (observableToAsyncGenerator (map Next vs @ [t]) sched))
           (expected vs t (length sched))"
proof -
  obtain s rs outs where rn: "run (init (map Next vs @ [t]), []) sched = ((s, rs), outs)"
    by (cases "run (init (map Next vs @ [t]), []) sched") auto
  from orderly_run [OF t rn nr] have ord: "orderly vs t (s, rs) outs" .
  have "prefix outs (expected vs t (length sched))"
  proof (cases "pc s = Finished")
    case True
    with ord obtain d where f: "finishes vs t" and o: "outs = expected vs t d"
      by (auto simp: orderly_def)
    from run_count [OF rn] have "length outs \<le> requests sched"
      by (simp add: inflight_def running_def init_def)
    with o expected_longer [OF f, of d] requests_le [of sched] have "d \<le> length sched" by simp
    from expected_mono [OF this] o show ?thesis by simp
  next
    case False
    have "prefix outs (expected vs t 0)"
    proof (cases "pc s = AtItem")
      case True
      with ord show ?thesis by (auto simp: orderly_def)
    next
      case F: False
      with False ord
      have "expected vs t 0 = outs @ expected (queue s @ emitted (source s)) t 0"
        by (auto simp: orderly_def)
      then show ?thesis by (rule prefixI)
    qed
    with expected_mono [of 0 "length sched" vs t] show ?thesis by auto
  qed
  with rn show ?thesis by (simp add: observableToAsyncGenerator_def)
qed

text \<open>After a flush the consumer has received all of it.\<close>

lemma outcomes_flushed:
  assumes t: "terminal t" and nr: "Return \<notin> set sched" and n: "length vs < n"
  shows "prefix (expected vs t 0)
           (snd (observableToAsyncGenerator (map Next vs @ [t]) (sched @ flush n)))"
proof -
  obtain s rs outs
    where rn: "run (init (map Next vs @ [t]), []) (sched @ flush n) = ((s, rs), outs)"
    by (cases "run (init (map Next vs @ [t]), []) (sched @ flush n)") auto
  have nrF: "Return \<notin> set (sched @ flush n)" using nr by (simp add: flush_def)
  from settled_outcomes [OF t flush_settled [OF t nr n rn] sane_run [OF sane_init rn]
      orderly_run [OF t rn nrF]]
  obtain d where "outs = expected vs t d" by auto
  with expected_mono [of 0 d vs t] rn show ?thesis
    by (simp add: observableToAsyncGenerator_def)
qed

text \<open>After a flush the generator has finished exactly when the source's sequence ends.\<close>

lemma finished_flushed:
  assumes t: "terminal t" and nr: "Return \<notin> set sched" and n: "length vs < n"
    and rn: "run (init (map Next vs @ [t]), []) (sched @ flush n) = ((s, rs), outs)"
  shows "settled s \<and> (pc s = Finished \<longleftrightarrow> finishes vs t) \<and> (pc s = AtItem \<longleftrightarrow> stalls vs) \<and>
         (\<exists>d. outs = expected vs t d)"
proof -
  have nrF: "Return \<notin> set (sched @ flush n)" using nr by (simp add: flush_def)
  from settled_outcomes [OF t flush_settled [OF t nr n rn] sane_run [OF sane_init rn]
      orderly_run [OF t rn nrF]] flush_settled [OF t nr n rn]
  show ?thesis by simp
qed

text \<open>Values that are not promises are handed over as they are.\<close>

lemma await_plain: "\<not> instanceof_Promise v \<Longrightarrow> await_js v = Fulfilled v"
  by (cases v) auto

lemma expected_plain:
  "\<forall>v \<in> set vs. \<not> instanceof_Promise v \<Longrightarrow>
     expected vs t n = map Yield (defined vs) @ expected [] t n"
  by (induction vs) (auto simp: defined_def await_plain)

lemma finishes_plain:
  "\<forall>v \<in> set vs. \<not> instanceof_Promise v \<Longrightarrow> finishes vs t = (final_outcome t \<noteq> None)"
  by (induction vs) (auto simp: await_plain)

lemma expected_fulfilled:
  "\<forall>v \<in> set vs. \<exists>w. await_js v = Fulfilled w \<Longrightarrow>
     \<exists>ys. expected vs t n = map Yield ys @ expected [] t n"
proof (induction vs)
  case Nil
  then show ?case by simp
next
  case (Cons v vs)
  then obtain ys where ys: "expected vs t n = map Yield ys @ expected [] t n" by auto
  from Cons.prems obtain w where w: "await_js v = Fulfilled w" by auto
  show ?case
  proof (cases "v = JUndefined")
    case True
    with ys show ?thesis by auto
  next
    case False
    with ys w have "expected (v # vs) t n = map Yield (w # ys) @ expected [] t n" by simp
    then show ?thesis by blast
  qed
qed

lemma finishes_fulfilled:
  "\<forall>v \<in> set vs. \<exists>w. await_js v = Fulfilled w \<Longrightarrow>
     finishes vs t = (final_outcome t \<noteq> None) \<and> \<not> stalls vs"
  by (induction vs) auto


lemma expected_Throw:
  "Throw x \<in> set (expected vs t n) \<Longrightarrow>
     (\<exists>v \<in> set vs. await_js v = Rejected x) \<or> final_outcome t = Some (Throw x)"
  by (induction vs) (auto split: option.splits settle.splits if_splits)







lemma lastValue_last:
  "lastValue latest (map Next vs @ [Next v, Complete]) = Fulfilled v"
  by (induction vs arbitrary: latest) auto

lemma attach_fold:
  assumes "\<And>name impl. (name, impl) \<in> set hs' \<Longrightarrow> map_of hs name = Some impl"
  shows "foldl (attach store hs) router (map fst hs') =
           router @ concat (map (\<lambda>(name, impl).
                                   case store name of None \<Rightarrow> [] | Some d \<Rightarrow> [(d, impl)]) hs')"
  using assms
proof (induction hs' arbitrary: router)
  case Nil
  then show ?case by simp
next
  case (Cons h hs')
  obtain name impl where h: "h = (name, impl)" by (cases h)
  from Cons.prems [of name impl] h have look: "map_of hs name = Some impl" by simp
  have "foldl (attach store hs) (attach store hs router name) (map fst hs') =
          attach store hs router name @
          concat (map (\<lambda>(name, impl). case store name of None \<Rightarrow> [] | Some d \<Rightarrow> [(d, impl)]) hs')"
    by (rule Cons.IH) (use Cons.prems in auto)
  moreover have "attach store hs router name =
                   router @ (case store name of None \<Rightarrow> [] | Some d \<Rightarrow> [(d, impl)])"
    using look by (simp add: attach_def split: option.splits)
  ultimately show ?case using h by simp
qed

section \<open>The claims\<close>

subsection \<open>The bridge\<close>

text \<open>
  C1 (order preservation), as the code has it. A push source emits the values \<open>vs\<close> and
  then completes. Under every schedule there is at most one outcome for each request of
  the consumer. When the consumer does not abandon the sequence, what it has received
  under any schedule of pulls, emissions and continuations is an initial part of
  \<open>expected vs Complete n\<close>: the values that are not \<^verbatim>\<open>undefined\<close>, in the order emitted,
  each as \<^verbatim>\<open>yield\<close> hands it over (a value that is not a promise as it is, a promise as the
  value it is fulfilled with), then exhaustion; a rejected promise among the values ends
  the sequence there with its reason, and a promise that never settles stops it there.
  Once the source has emitted all its events and the consumer has pulled often enough, it
  has received all of that. In particular, when none of the values is a promise, the
  consumer receives the values that are not \<^verbatim>\<open>undefined\<close>, each once and in the order
  emitted, and then exhaustion.
\<close>

theorem order_preservation:
  "length (snd (observableToAsyncGenerator (map Next vs @ [Complete]) sched)) \<le> requests sched \<and>
   (Return \<notin> set sched \<longrightarrow>
      prefix (snd (observableToAsyncGenerator (map Next vs @ [Complete]) sched))
        (expected vs Complete (length sched)) \<and>
      prefix (expected vs Complete 0)
        (snd (observableToAsyncGenerator (map Next vs @ [Complete])
                (sched @ flush (Suc (length vs)))))) \<and>
   (Return \<notin> set sched \<and> (\<forall>v \<in> set vs. \<not> instanceof_Promise v) \<longrightarrow>
      prefix (snd (observableToAsyncGenerator (map Next vs @ [Complete]) sched))
        (map Yield (defined vs) @ replicate (Suc (length sched)) Done) \<and>
      prefix (map Yield (defined vs) @ [Done])
        (snd (observableToAsyncGenerator (map Next vs @ [Complete])
                (sched @ flush (Suc (length vs))))))"
proof -
  have a: "length (snd (observableToAsyncGenerator (map Next vs @ [Complete]) sched))
             \<le> requests sched"
    by (rule outcomes_le_requests)
  have b: "Return \<notin> set sched \<Longrightarrow>
      prefix (snd (observableToAsyncGenerator (map Next vs @ [Complete]) sched))
        (expected vs Complete (length sched))"
    by (rule outcomes_prefix) simp_all
  have c: "Return \<notin> set sched \<Longrightarrow>
      prefix (expected vs Complete 0)
        (snd (observableToAsyncGenerator (map Next vs @ [Complete])
                (sched @ flush (Suc (length vs)))))"
    by (rule outcomes_flushed) simp_all
  have d: "\<forall>v \<in> set vs. \<not> instanceof_Promise v \<Longrightarrow>
      expected vs Complete n = map Yield (defined vs) @ replicate (Suc n) Done" for n
    by (simp add: expected_plain)
  from a b c d [of "length sched"] d [of 0] show ?thesis by auto
qed

text \<open>An instance: three values, the first emitted while the consumer waits.\<close>

theorem order_preservation_witness:
  "Return \<notin> set [Pull, Resume, Emit, Resume, Pull, Emit] \<and>
   \<not> instanceof_Promise (JNum ''1'') \<and> \<not> instanceof_Promise (JNum ''2'') \<and>
   \<not> instanceof_Promise (JNum ''3'') \<and>
   prefix (map Yield (defined [JNum ''1'', JNum ''2'', JNum ''3'']) @ [Done])
     (snd (observableToAsyncGenerator (map Next [JNum ''1'', JNum ''2'', JNum ''3''] @ [Complete])
             ([Pull, Resume, Emit, Resume, Pull, Emit]
              @ flush (Suc (length [JNum ''1'', JNum ''2'', JNum ''3''])))))"
proof -
  have h1: "Return \<notin> set [Pull, Resume, Emit, Resume, Pull, Emit]" by simp
  have h2: "\<forall>v \<in> set [JNum ''1'', JNum ''2'', JNum ''3'']. \<not> instanceof_Promise v" by simp
  note c = order_preservation [of "[JNum ''1'', JNum ''2'', JNum ''3'']"
      "[Pull, Resume, Emit, Resume, Pull, Emit]", THEN conjunct2, THEN conjunct2, rule_format,
      OF conjI [OF h1 h2], THEN conjunct2]
  have i: "\<not> instanceof_Promise (JNum ''1'')" "\<not> instanceof_Promise (JNum ''2'')"
    "\<not> instanceof_Promise (JNum ''3'')" by simp_all
  show ?thesis by (intro conjI) (fact h1 i c)+
qed

text \<open>
  As stated, C1 fails: of the values \<open>1\<close>, \<^verbatim>\<open>undefined\<close>, \<open>2\<close> only \<open>1\<close> and \<open>2\<close> are
  yielded; and when the first of two values is a rejected promise the first pull fails
  with its reason and the second value is never delivered.
\<close>

theorem order_preservation_counterexample:
  "snd (observableToAsyncGenerator (map Next [JNum ''1'', JUndefined, JNum ''2''] @ [Complete])
          [Pull, Emit, Emit, Emit, Emit, Resume, Pull, Pull, Pull])
     = [Yield (JNum ''1''), Yield (JNum ''2''), Done, Done] \<and>
   snd (observableToAsyncGenerator
          (map Next [JPromise (Rejected (JStr ''r'')), JNum ''2''] @ [Complete])
          [Pull, Emit, Emit, Emit, Resume, Pull, Pull])
     = [Throw (JStr ''r''), Done, Done]"
  by code_simp

text \<open>
  C2 (drain before error), as the code has it. A push source emits the values \<open>vs\<close> and
  then signals an error with cause \<open>e\<close>; the consumer does not abandon the sequence. What
  the consumer has received under any schedule is an initial part of
  \<open>expected vs (Error e) n\<close>: the values that are not \<^verbatim>\<open>undefined\<close>, in the order emitted,
  each as \<^verbatim>\<open>yield\<close> hands it over, and then, when \<open>e\<close> is not \<^verbatim>\<open>null\<close>, the error as the
  bridge throws it, followed by exhaustion only; a rejected promise among the values ends
  the sequence there with its reason, before the error of the source. Once the source has
  emitted all its events and the consumer has pulled often enough, it has received all of
  that. In particular, when none of the values is a promise: for a cause that is not
  \<^verbatim>\<open>null\<close> the consumer receives every value that is not \<^verbatim>\<open>undefined\<close>, then the error, and
  no value after the error; for the cause \<^verbatim>\<open>null\<close> it receives values only, and no error
  is raised.
\<close>

theorem drain_before_error:
  "(Return \<notin> set sched \<longrightarrow>
      prefix (snd (observableToAsyncGenerator (map Next vs @ [Error e]) sched))
        (expected vs (Error e) (length sched)) \<and>
      prefix (expected vs (Error e) 0)
        (snd (observableToAsyncGenerator (map Next vs @ [Error e])
                (sched @ flush (Suc (length vs)))))) \<and>
   (Return \<notin> set sched \<and> (\<forall>v \<in> set vs. \<not> instanceof_Promise v) \<and> e \<noteq> JNull \<longrightarrow>
      prefix (snd (observableToAsyncGenerator (map Next vs @ [Error e]) sched))
        (map Yield (defined vs) @ Throw (thrown e) # replicate (length sched) Done) \<and>
      prefix (map Yield (defined vs) @ [Throw (thrown e)])
        (snd (observableToAsyncGenerator (map Next vs @ [Error e])
                (sched @ flush (Suc (length vs)))))) \<and>
   (Return \<notin> set sched \<and> (\<forall>v \<in> set vs. \<not> instanceof_Promise v) \<and> e = JNull \<longrightarrow>
      prefix (snd (observableToAsyncGenerator (map Next vs @ [Error e]) sched))
        (map Yield (defined vs)))"
proof -
  have b: "Return \<notin> set sched \<Longrightarrow>
      prefix (snd (observableToAsyncGenerator (map Next vs @ [Error e]) sched))
        (expected vs (Error e) (length sched))"
    by (rule outcomes_prefix) simp_all
  have c: "Return \<notin> set sched \<Longrightarrow>
      prefix (expected vs (Error e) 0)
        (snd (observableToAsyncGenerator (map Next vs @ [Error e])
                (sched @ flush (Suc (length vs)))))"
    by (rule outcomes_flushed) simp_all
  have d: "\<forall>v \<in> set vs. \<not> instanceof_Promise v \<Longrightarrow> e \<noteq> JNull \<Longrightarrow>
      expected vs (Error e) n = map Yield (defined vs) @ Throw (thrown e) # replicate n Done" for n
    by (simp add: expected_plain)
  have d0: "\<forall>v \<in> set vs. \<not> instanceof_Promise v \<Longrightarrow> e = JNull \<Longrightarrow>
      expected vs (Error e) n = map Yield (defined vs)" for n
    by (simp add: expected_plain)
  from b c d [of "length sched"] d [of 0] d0 [of "length sched"] show ?thesis by auto
qed

text \<open>
  Instances: the value \<open>1\<close> and then the error \<^verbatim>\<open>"boom"\<close>; the value \<open>1\<close> and then an error
  with cause \<^verbatim>\<open>null\<close>.
\<close>

theorem drain_before_error_witness:
  "Return \<notin> set [Pull, Resume, Emit] \<and> \<not> instanceof_Promise (JNum ''1'') \<and>
   JStr ''boom'' \<noteq> JNull \<and>
   prefix (map Yield (defined [JNum ''1'']) @ [Throw (thrown (JStr ''boom''))])
     (snd (observableToAsyncGenerator (map Next [JNum ''1''] @ [Error (JStr ''boom'')])
             ([Pull, Resume, Emit] @ flush (Suc (length [JNum ''1'']))))) \<and>
   prefix (snd (observableToAsyncGenerator (map Next [JNum ''1''] @ [Error JNull])
                  [Pull, Resume, Emit]))
     (map Yield (defined [JNum ''1'']))"
proof -
  have h1: "Return \<notin> set [Pull, Resume, Emit]" by simp
  have h2: "\<forall>v \<in> set [JNum ''1'']. \<not> instanceof_Promise v" by simp
  have h3: "JStr ''boom'' \<noteq> JNull" by simp
  note c = drain_before_error [of "[Pull, Resume, Emit]" "[JNum ''1'']" "JStr ''boom''",
      THEN conjunct2, THEN conjunct1, rule_format, OF conjI [OF h1 conjI [OF h2 h3]],
      THEN conjunct2]
  have h4: "JNull = JNull" by (rule refl)
  note d = drain_before_error [of "[Pull, Resume, Emit]" "[JNum ''1'']" JNull,
      THEN conjunct2, THEN conjunct2, rule_format, OF conjI [OF h1 conjI [OF h2 h4]]]
  have i: "\<not> instanceof_Promise (JNum ''1'')" by simp
  show ?thesis by (intro conjI) (fact h1 i h3 c d)+
qed

text \<open>
  As stated, C2 fails: a value \<^verbatim>\<open>undefined\<close> emitted before the error is never yielded; an
  error whose cause is \<^verbatim>\<open>null\<close> is not raised when the queue is drained; and a rejected
  promise emitted before the error ends the sequence with its own reason, so that neither
  the value after it nor the error of the source is delivered.
\<close>

theorem drain_before_error_counterexample:
  "snd (observableToAsyncGenerator (map Next [JUndefined] @ [Error (JError ''boom'')])
          [Pull, Emit, Emit, Resume, Pull])
     = [Throw (JError ''boom''), Done] \<and>
   snd (observableToAsyncGenerator (map Next [JNum ''1''] @ [Error JNull])
          [Pull, Emit, Emit, Resume, Pull, Resume, Pull, Resume])
     = [Yield (JNum ''1'')] \<and>
   snd (observableToAsyncGenerator
          (map Next [JPromise (Rejected (JStr ''r'')), JNum ''2''] @ [Error (JError ''boom'')])
          [Pull, Emit, Emit, Emit, Resume, Pull, Pull])
     = [Throw (JStr ''r''), Done, Done]"
  by code_simp









text \<open>
  C10 (an error with cause \<^verbatim>\<open>null\<close>). A push source emits the values \<open>vs\<close> and then
  signals an error whose cause is \<^verbatim>\<open>null\<close>; the consumer does not abandon the sequence
  before the values are drained. The consumer is thrown nothing but the reason of a
  rejected promise among the values. When \<^verbatim>\<open>yield\<close> can hand over every value (none is a
  rejected promise or a promise that never settles), the generator never finishes and
  the consumer receives neither an error nor exhaustion; after the source has emitted
  everything and the consumer has pulled the values, the body is suspended at its
  \<^verbatim>\<open>await\<close> with no wake-up pending, the error variable still \<^verbatim>\<open>null\<close> and the completion
  flag unset, and it stays there whatever happens later. When none of the values is a
  promise the consumer has then received the values that are not \<^verbatim>\<open>undefined\<close> and
  nothing else.
\<close>

theorem null_error_never_surfaces:
  "(Return \<notin> set sched \<longrightarrow>
      (\<forall>x. Throw x \<in> set (snd (observableToAsyncGenerator (map Next vs @ [Error JNull]) sched))
             \<longrightarrow> (\<exists>v \<in> set vs. await_js v = Rejected x))) \<and>
   (Return \<notin> set sched \<and> (\<forall>v \<in> set vs. \<exists>w. await_js v = Fulfilled w) \<longrightarrow>
      (case observableToAsyncGenerator (map Next vs @ [Error JNull]) sched of
         ((s, rs), outs) \<Rightarrow>
           pc s \<noteq> Finished \<and> (\<forall>x. Throw x \<notin> set outs) \<and> Done \<notin> set outs) \<and>
      (case observableToAsyncGenerator (map Next vs @ [Error JNull])
              (sched @ flush (Suc (length vs)) @ later) of
         ((s, rs), outs) \<Rightarrow>
           pc s = AtAwait \<and> \<not> woken s \<and> error s = JNull \<and> \<not> completed s \<and>
           outs = expected vs (Error JNull) 0)) \<and>
   (Return \<notin> set sched \<and> (\<forall>v \<in> set vs. \<not> instanceof_Promise v) \<longrightarrow>
      snd (observableToAsyncGenerator (map Next vs @ [Error JNull])
             (sched @ flush (Suc (length vs)) @ later))
        = map Yield (defined vs))"
proof -
  let ?t = "Error JNull :: jsval event"
  let ?c0 = "(init (map Next vs @ [?t]), [])"
  have t: "terminal ?t" by simp
  have a: "\<exists>v \<in> set vs. await_js v = Rejected x"
    if nr: "Return \<notin> set sched"
      and x: "Throw x \<in> set (snd (observableToAsyncGenerator (map Next vs @ [?t]) sched))" for x
  proof -
    from set_mono_prefix [OF outcomes_prefix [OF t nr, of vs]] x
    have "Throw x \<in> set (expected vs ?t (length sched))" by auto
    from expected_Throw [OF this] show ?thesis by simp
  qed
  have b: "case observableToAsyncGenerator (map Next vs @ [?t]) sched of
         ((s, rs), outs) \<Rightarrow>
           pc s \<noteq> Finished \<and> (\<forall>x. Throw x \<notin> set outs) \<and> Done \<notin> set outs"
    if nr: "Return \<notin> set sched" and fu: "\<forall>v \<in> set vs. \<exists>w. await_js v = Fulfilled w"
  proof -
    obtain s rs outs where rn: "run ?c0 sched = ((s, rs), outs)"
      by (cases "run ?c0 sched") auto
    from finishes_fulfilled [OF fu, of ?t] have nf: "\<not> finishes vs ?t" by simp
    with orderly_run [OF t rn nr] have pc: "pc s \<noteq> Finished" by (auto simp: orderly_def)
    from expected_fulfilled [OF fu, of ?t "length sched"]
    obtain ys where ys: "expected vs ?t (length sched) = map Yield ys" by auto
    from set_mono_prefix [OF outcomes_prefix [OF t nr, of vs]] rn ys
    have "set outs \<subseteq> set (map Yield ys)" by (simp add: observableToAsyncGenerator_def)
    then have "(\<forall>x. Throw x \<notin> set outs) \<and> Done \<notin> set outs" by auto
    with pc rn show ?thesis by (simp add: observableToAsyncGenerator_def)
  qed
  have c: "case observableToAsyncGenerator (map Next vs @ [?t])
              (sched @ flush (Suc (length vs)) @ later) of
         ((s, rs), outs) \<Rightarrow>
           pc s = AtAwait \<and> \<not> woken s \<and> error s = JNull \<and> \<not> completed s \<and>
           outs = expected vs ?t 0"
    if nr: "Return \<notin> set sched" and fu: "\<forall>v \<in> set vs. \<exists>w. await_js v = Fulfilled w"
  proof -
    obtain s rs outs
      where rn: "run ?c0 ((sched @ flush (Suc (length vs))) @ later) = ((s, rs), outs)"
      by (cases "run ?c0 ((sched @ flush (Suc (length vs))) @ later)") auto
    from rn obtain c1 o1 o2 where r1: "run ?c0 (sched @ flush (Suc (length vs))) = (c1, o1)"
      and r2: "run c1 later = ((s, rs), o2)" and outs: "outs = o1 @ o2"
      by (rule run_appendE)
    obtain s1 rs1 where c1: "c1 = (s1, rs1)" by (cases c1)
    from finishes_fulfilled [OF fu, of ?t]
    have nf: "\<not> finishes vs ?t" "\<not> stalls vs" by simp_all
    from finished_flushed [OF t nr _ r1 [unfolded c1]] nf
    have st: "settled s1" and pc: "pc s1 \<noteq> Finished" "pc s1 \<noteq> AtItem"
      and o1: "\<exists>d. o1 = expected vs ?t d" by auto
    from o1 obtain d where "o1 = expected vs ?t d" by blast
    with expected_unfinished [OF nf(1), of d] have o1': "o1 = expected vs ?t 0" by simp
    from st pc have w: "pc s1 = AtAwait" "\<not> woken s1" by (auto simp: settled_def)
    from run_settled [OF st r2 [unfolded c1]] pc have eq: "s = s1" "o2 = []" by simp_all
    from sane_run [OF sane_init r1] c1 w have "error s1 = JNull" "\<not> completed s1"
      by (auto simp: sane_def)
    with w eq o1' outs rn show ?thesis by (simp add: observableToAsyncGenerator_def)
  qed
  have d: "snd (observableToAsyncGenerator (map Next vs @ [?t])
             (sched @ flush (Suc (length vs)) @ later))
        = map Yield (defined vs)"
    if nr: "Return \<notin> set sched" and pl: "\<forall>v \<in> set vs. \<not> instanceof_Promise v"
  proof -
    from pl have fu: "\<forall>v \<in> set vs. \<exists>w. await_js v = Fulfilled w" by (auto simp: await_plain)
    from c [OF nr fu] expected_plain [OF pl, of ?t 0] show ?thesis
      by (auto split: prod.splits)
  qed
  show ?thesis
  proof (intro conjI impI allI)
    fix x
    assume "Return \<notin> set sched"
      "Throw x \<in> set (snd (observableToAsyncGenerator (map Next vs @ [?t]) sched))"
    then show "\<exists>v \<in> set vs. await_js v = Rejected x" by (rule a)
  next
    assume "Return \<notin> set sched \<and> (\<forall>v \<in> set vs. \<exists>w. await_js v = Fulfilled w)"
    then show "case observableToAsyncGenerator (map Next vs @ [?t]) sched of
         ((s, rs), outs) \<Rightarrow>
           pc s \<noteq> Finished \<and> (\<forall>x. Throw x \<notin> set outs) \<and> Done \<notin> set outs"
      by (elim conjE) (rule b)
  next
    assume "Return \<notin> set sched \<and> (\<forall>v \<in> set vs. \<exists>w. await_js v = Fulfilled w)"
    then show "case observableToAsyncGenerator (map Next vs @ [?t])
              (sched @ flush (Suc (length vs)) @ later) of
         ((s, rs), outs) \<Rightarrow>
           pc s = AtAwait \<and> \<not> woken s \<and> error s = JNull \<and> \<not> completed s \<and>
           outs = expected vs ?t 0"
      by (elim conjE) (rule c)
  next
    assume "Return \<notin> set sched \<and> (\<forall>v \<in> set vs. \<not> instanceof_Promise v)"
    then show "snd (observableToAsyncGenerator (map Next vs @ [?t])
             (sched @ flush (Suc (length vs)) @ later))
        = map Yield (defined vs)"
      by (elim conjE) (rule d)
  qed
qed

text \<open>An instance: the value \<open>1\<close> and then an error with cause \<^verbatim>\<open>null\<close>.\<close>

theorem null_error_never_surfaces_witness:
  "Return \<notin> set [Pull, Resume, Emit] \<and>
   await_js (JNum ''1'') = Fulfilled (JNum ''1'') \<and> \<not> instanceof_Promise (JNum ''1'') \<and>
   (case observableToAsyncGenerator (map Next [JNum ''1''] @ [Error JNull])
           ([Pull, Resume, Emit] @ flush (Suc (length [JNum ''1'']))
            @ [Pull, Resume, Return, Emit]) of
      ((s, rs), outs) \<Rightarrow>
        pc s = AtAwait \<and> \<not> woken s \<and> error s = JNull \<and> \<not> completed s \<and>
        outs = expected [JNum ''1''] (Error JNull) 0) \<and>
   snd (observableToAsyncGenerator (map Next [JNum ''1''] @ [Error JNull])
          ([Pull, Resume, Emit] @ flush (Suc (length [JNum ''1'']))
           @ [Pull, Resume, Return, Emit]))
     = map Yield (defined [JNum ''1''])"
proof -
  have h1: "Return \<notin> set [Pull, Resume, Emit] \<and>
    (\<forall>v \<in> set [JNum ''1'']. \<exists>w. await_js v = Fulfilled w)" by simp
  have h2: "Return \<notin> set [Pull, Resume, Emit] \<and>
    (\<forall>v \<in> set [JNum ''1'']. \<not> instanceof_Promise v)" by simp
  note t = null_error_never_surfaces [of "[Pull, Resume, Emit]" "[JNum ''1'']"
      "[Pull, Resume, Return, Emit]"]
  note b = t [THEN conjunct2, THEN conjunct1, rule_format, OF h1, THEN conjunct2]
  note c = t [THEN conjunct2, THEN conjunct2, rule_format, OF h2]
  have i: "await_js (JNum ''1'') = Fulfilled (JNum ''1'')" "\<not> instanceof_Promise (JNum ''1'')"
    by simp_all
  show ?thesis by (intro conjI) (fact h1 [THEN conjunct1] i b c)+
qed

subsection \<open>The adapters\<close>

text \<open>
  C4 (server and bidirectional streaming), as the code has it. The adapters built for the
  kinds \<^verbatim>\<open>rx_stream\<close> and \<^verbatim>\<open>duplex_stream\<close> await the handler's result. When the result is
  then a push-style stream, the caller's pull sequence is the bridge over that stream:
  for a stream that emits the values \<open>vs\<close> and then its terminal event, a caller that
  does not abandon the sequence has received, under any schedule, an initial part of
  \<open>expected vs t n\<close>, and all of it once the stream has emitted all its events and the
  caller has pulled often enough. In particular, when none of the values is a promise,
  the caller receives the values that are not \<^verbatim>\<open>undefined\<close>, in the order emitted, and then
  exhaustion when the stream completes, or the error when the stream fails with a cause
  that is not \<^verbatim>\<open>null\<close>. When the result is an async generator it is passed through. When
  it is anything else, such as an immediate or a deferred plain value, it is not
  normalized to a stream: the first pull throws an Unsupported-input error.
\<close>

theorem stream_adapter_shapes:
  "dispatch RX_STREAMING handler = Inr (serverStreamingHandler handler) \<and>
   dispatch DUPLEX_STREAMING handler = Inr (bidiStreamingHandler handler) \<and>
   (await_js (handler request ctx) = Fulfilled (JObservable evs) \<longrightarrow>
      serverStreamingHandler handler request ctx = Sequence (Bridged evs) \<and>
      bidiStreamingHandler handler request ctx = Sequence (Bridged evs) \<and>
      bridged_outcomes (serverStreamingHandler handler request ctx) sched
        = Some (snd (observableToAsyncGenerator evs sched)) \<and>
      bridged_outcomes (bidiStreamingHandler handler request ctx) sched
        = Some (snd (observableToAsyncGenerator evs sched))) \<and>
   (await_js (handler request ctx) = Fulfilled (JObservable (map Next vs @ [t])) \<and>
    terminal t \<and> Return \<notin> set sched \<and>
    (bridged_outcomes (serverStreamingHandler handler request ctx) sched = Some outs \<or>
     bridged_outcomes (bidiStreamingHandler handler request ctx) sched = Some outs) \<longrightarrow>
      prefix outs (expected vs t (length sched))) \<and>
   (await_js (handler request ctx) = Fulfilled (JObservable (map Next vs @ [t])) \<and>
    terminal t \<and> Return \<notin> set sched \<and>
    (bridged_outcomes (serverStreamingHandler handler request ctx)
       (sched @ flush (Suc (length vs))) = Some outs \<or>
     bridged_outcomes (bidiStreamingHandler handler request ctx)
       (sched @ flush (Suc (length vs))) = Some outs) \<longrightarrow>
      prefix (expected vs t 0) outs) \<and>
   (await_js (handler request ctx) = Fulfilled (JObservable (map Next vs @ [Complete])) \<and>
    Return \<notin> set sched \<and> (\<forall>v \<in> set vs. \<not> instanceof_Promise v) \<and>
    (bridged_outcomes (serverStreamingHandler handler request ctx)
       (sched @ flush (Suc (length vs))) = Some outs \<or>
     bridged_outcomes (bidiStreamingHandler handler request ctx)
       (sched @ flush (Suc (length vs))) = Some outs) \<longrightarrow>
      prefix (map Yield (defined vs) @ [Done]) outs) \<and>
   (await_js (handler request ctx) = Fulfilled (JObservable (map Next vs @ [Error e])) \<and>
    Return \<notin> set sched \<and> (\<forall>v \<in> set vs. \<not> instanceof_Promise v) \<and> e \<noteq> JNull \<and>
    (bridged_outcomes (serverStreamingHandler handler request ctx)
       (sched @ flush (Suc (length vs))) = Some outs \<or>
     bridged_outcomes (bidiStreamingHandler handler request ctx)
       (sched @ flush (Suc (length vs))) = Some outs) \<longrightarrow>
      prefix (map Yield (defined vs) @ [Throw (thrown e)]) outs) \<and>
   (await_js (handler request ctx) = Fulfilled (JAsyncGen gen) \<longrightarrow>
      serverStreamingHandler handler request ctx = Sequence (PassedThrough gen) \<and>
      bidiStreamingHandler handler request ctx = Sequence (PassedThrough gen)) \<and>
   (await_js (handler request ctx) = Fulfilled r \<and>
    \<not> isObservable r \<and> \<not> isAsyncGenerator r \<longrightarrow>
      serverStreamingHandler handler request ctx =
        Sequence (Failing (JError
          (''Unsupported input type. Expected Observable or AsyncGenerator, got '' @ typeof r))) \<and>
      bidiStreamingHandler handler request ctx =
        Sequence (Failing (JError
          (''Unsupported input type. Expected Observable or AsyncGenerator, got '' @ typeof r))))"
proof -
  have d1: "dispatch RX_STREAMING handler = Inr (serverStreamingHandler handler)"
    by (simp add: dispatch_def NO_STREAMING_def RX_STREAMING_def)
  have d2: "dispatch DUPLEX_STREAMING handler = Inr (bidiStreamingHandler handler)"
    by (simp add: dispatch_def NO_STREAMING_def RX_STREAMING_def PT_STREAMING_def
          DUPLEX_STREAMING_def)
  have bridged: "await_js (handler request ctx) = Fulfilled (JObservable evs) \<longrightarrow>
      serverStreamingHandler handler request ctx = Sequence (Bridged evs) \<and>
      bidiStreamingHandler handler request ctx = Sequence (Bridged evs) \<and>
      bridged_outcomes (serverStreamingHandler handler request ctx) sched
        = Some (snd (observableToAsyncGenerator evs sched)) \<and>
      bridged_outcomes (bidiStreamingHandler handler request ctx) sched
        = Some (snd (observableToAsyncGenerator evs sched))"
    by (simp add: serverStreamingHandler_def bidiStreamingHandler_def)
  have safe:
    "await_js (handler request ctx) = Fulfilled (JObservable (map Next vs @ [t])) \<and>
    terminal t \<and> Return \<notin> set sched \<and>
    (bridged_outcomes (serverStreamingHandler handler request ctx) sched = Some outs \<or>
     bridged_outcomes (bidiStreamingHandler handler request ctx) sched = Some outs) \<longrightarrow>
       prefix outs (expected vs t (length sched))"
  proof
    assume h: "await_js (handler request ctx) = Fulfilled (JObservable (map Next vs @ [t])) \<and>
    terminal t \<and> Return \<notin> set sched \<and>
    (bridged_outcomes (serverStreamingHandler handler request ctx) sched = Some outs \<or>
     bridged_outcomes (bidiStreamingHandler handler request ctx) sched = Some outs)"
    from h have o: "outs = snd (observableToAsyncGenerator (map Next vs @ [t]) sched)"
      by (auto simp: serverStreamingHandler_def bidiStreamingHandler_def)
    from h have "terminal t" "Return \<notin> set sched" by simp_all
    from outcomes_prefix [OF this, of vs] o show "prefix outs (expected vs t (length sched))"
      by simp
  qed
  have live:
    "await_js (handler request ctx) = Fulfilled (JObservable (map Next vs @ [t])) \<and>
    terminal t \<and> Return \<notin> set sched \<and>
    (bridged_outcomes (serverStreamingHandler handler request ctx)
       (sched @ flush (Suc (length vs))) = Some outs \<or>
     bridged_outcomes (bidiStreamingHandler handler request ctx)
       (sched @ flush (Suc (length vs))) = Some outs) \<longrightarrow>
       prefix (expected vs t 0) outs"
  proof
    assume h: "await_js (handler request ctx) = Fulfilled (JObservable (map Next vs @ [t])) \<and>
    terminal t \<and> Return \<notin> set sched \<and>
    (bridged_outcomes (serverStreamingHandler handler request ctx)
       (sched @ flush (Suc (length vs))) = Some outs \<or>
     bridged_outcomes (bidiStreamingHandler handler request ctx)
       (sched @ flush (Suc (length vs))) = Some outs)"
    from h have o: "outs = snd (observableToAsyncGenerator (map Next vs @ [t]) (sched @ flush (Suc (length vs))))"
      by (auto simp: serverStreamingHandler_def bidiStreamingHandler_def)
    from h have "terminal t" "Return \<notin> set sched" by simp_all
    from outcomes_flushed [OF this, of vs "Suc (length vs)"] o
    show "prefix (expected vs t 0) outs" by simp
  qed
  have completes:
    "await_js (handler request ctx) = Fulfilled (JObservable (map Next vs @ [Complete])) \<and>
    Return \<notin> set sched \<and> (\<forall>v \<in> set vs. \<not> instanceof_Promise v) \<and>
    (bridged_outcomes (serverStreamingHandler handler request ctx)
       (sched @ flush (Suc (length vs))) = Some outs \<or>
     bridged_outcomes (bidiStreamingHandler handler request ctx)
       (sched @ flush (Suc (length vs))) = Some outs) \<longrightarrow>
       prefix (map Yield (defined vs) @ [Done]) outs"
  proof
    assume h: "await_js (handler request ctx) = Fulfilled (JObservable (map Next vs @ [Complete])) \<and>
    Return \<notin> set sched \<and> (\<forall>v \<in> set vs. \<not> instanceof_Promise v) \<and>
    (bridged_outcomes (serverStreamingHandler handler request ctx)
       (sched @ flush (Suc (length vs))) = Some outs \<or>
     bridged_outcomes (bidiStreamingHandler handler request ctx)
       (sched @ flush (Suc (length vs))) = Some outs)"
    from h have o: "outs = snd (observableToAsyncGenerator (map Next vs @ [Complete]) (sched @ flush (Suc (length vs))))"
      by (auto simp: serverStreamingHandler_def bidiStreamingHandler_def)
    from h have nr: "Return \<notin> set sched" and pl: "\<forall>v \<in> set vs. \<not> instanceof_Promise v"
      by simp_all
    have "terminal (Complete :: jsval event)" by simp
    from outcomes_flushed [OF this nr, of vs "Suc (length vs)"] o
    have "prefix (expected vs Complete 0) outs" by simp
    with expected_plain [OF pl, of Complete 0]
    show "prefix (map Yield (defined vs) @ [Done]) outs" by simp
  qed
  have errors:
    "await_js (handler request ctx) = Fulfilled (JObservable (map Next vs @ [Error e])) \<and>
    Return \<notin> set sched \<and> (\<forall>v \<in> set vs. \<not> instanceof_Promise v) \<and> e \<noteq> JNull \<and>
    (bridged_outcomes (serverStreamingHandler handler request ctx)
       (sched @ flush (Suc (length vs))) = Some outs \<or>
     bridged_outcomes (bidiStreamingHandler handler request ctx)
       (sched @ flush (Suc (length vs))) = Some outs) \<longrightarrow>
       prefix (map Yield (defined vs) @ [Throw (thrown e)]) outs"
  proof
    assume h: "await_js (handler request ctx) = Fulfilled (JObservable (map Next vs @ [Error e])) \<and>
    Return \<notin> set sched \<and> (\<forall>v \<in> set vs. \<not> instanceof_Promise v) \<and> e \<noteq> JNull \<and>
    (bridged_outcomes (serverStreamingHandler handler request ctx)
       (sched @ flush (Suc (length vs))) = Some outs \<or>
     bridged_outcomes (bidiStreamingHandler handler request ctx)
       (sched @ flush (Suc (length vs))) = Some outs)"
    from h have o: "outs = snd (observableToAsyncGenerator (map Next vs @ [Error e]) (sched @ flush (Suc (length vs))))"
      by (auto simp: serverStreamingHandler_def bidiStreamingHandler_def)
    from h have nr: "Return \<notin> set sched" and pl: "\<forall>v \<in> set vs. \<not> instanceof_Promise v"
      and e: "e \<noteq> JNull" by simp_all
    have "terminal (Error e)" by simp
    from outcomes_flushed [OF this nr, of vs "Suc (length vs)"] o
    have "prefix (expected vs (Error e) 0) outs" by simp
    with expected_plain [OF pl, of "Error e" 0] e
    show "prefix (map Yield (defined vs) @ [Throw (thrown e)]) outs" by simp
  qed
  have passed: "await_js (handler request ctx) = Fulfilled (JAsyncGen gen) \<longrightarrow>
      serverStreamingHandler handler request ctx = Sequence (PassedThrough gen) \<and>
      bidiStreamingHandler handler request ctx = Sequence (PassedThrough gen)"
    by (simp add: serverStreamingHandler_def bidiStreamingHandler_def)
  have fails: "await_js (handler request ctx) = Fulfilled r \<and>
    \<not> isObservable r \<and> \<not> isAsyncGenerator r \<longrightarrow>
      serverStreamingHandler handler request ctx =
        Sequence (Failing (JError
          (''Unsupported input type. Expected Observable or AsyncGenerator, got '' @ typeof r))) \<and>
      bidiStreamingHandler handler request ctx =
        Sequence (Failing (JError
          (''Unsupported input type. Expected Observable or AsyncGenerator, got '' @ typeof r)))"
    by (cases r) (simp_all add: serverStreamingHandler_def bidiStreamingHandler_def)
  show ?thesis
    by (rule conjI [OF d1 conjI [OF d2 conjI [OF bridged conjI [OF safe conjI [OF live
          conjI [OF completes conjI [OF errors conjI [OF passed fails]]]]]]]])
qed

text \<open>
  Instances: a completing stream, a failing stream, an async generator, and a promise of a
  plain object.
\<close>

theorem stream_adapter_shapes_witness:
  "await_js (stream_handler JNull JNull)
     = Fulfilled (JObservable (map Next [JNum ''1'', JNum ''2''] @ [Complete])) \<and>
   terminal (Complete :: jsval event) \<and>
   Return \<notin> set [Pull, Emit, Resume] \<and>
   bridged_outcomes (serverStreamingHandler stream_handler JNull JNull) [Pull, Emit, Resume]
     = Some [Yield (JNum ''1'')] \<and>
   prefix [Yield (JNum ''1'')]
     (expected [JNum ''1'', JNum ''2''] Complete (length [Pull, Emit, Resume])) \<and>
   \<not> instanceof_Promise (JNum ''1'') \<and> \<not> instanceof_Promise (JNum ''2'') \<and>
   bridged_outcomes (serverStreamingHandler stream_handler JNull JNull)
       ([Pull, Emit, Resume] @ flush (Suc (length [JNum ''1'', JNum ''2''])))
     = Some [Yield (JNum ''1''), Yield (JNum ''2''), Done, Done, Done] \<and>
   prefix (expected [JNum ''1'', JNum ''2''] Complete 0)
     [Yield (JNum ''1''), Yield (JNum ''2''), Done, Done, Done] \<and>
   prefix (map Yield (defined [JNum ''1'', JNum ''2'']) @ [Done])
     [Yield (JNum ''1''), Yield (JNum ''2''), Done, Done, Done] \<and>
   serverStreamingHandler stream_handler JNull JNull
     = Sequence (Bridged (map Next [JNum ''1'', JNum ''2''] @ [Complete])) \<and>
   await_js (failing_stream_handler JNull JNull)
     = Fulfilled (JObservable (map Next [JNum ''1''] @ [Error (JError ''observable error'')])) \<and>
   JError ''observable error'' \<noteq> JNull \<and>
   bridged_outcomes (bidiStreamingHandler failing_stream_handler JNull JNull)
       ([Pull, Emit, Resume] @ flush (Suc (length [JNum ''1''])))
     = Some [Yield (JNum ''1''), Throw (JError ''observable error''), Done, Done] \<and>
   prefix (map Yield (defined [JNum ''1'']) @ [Throw (thrown (JError ''observable error''))])
     [Yield (JNum ''1''), Throw (JError ''observable error''), Done, Done] \<and>
   await_js (generator_handler JNull JNull)
     = Fulfilled (JAsyncGen [Yield (JStr ''a''), Yield (JStr ''b''), Done]) \<and>
   bidiStreamingHandler generator_handler JNull JNull
     = Sequence (PassedThrough [Yield (JStr ''a''), Yield (JStr ''b''), Done]) \<and>
   await_js (deferred_handler JNull JNull) = Fulfilled (JObj [(''data'', JStr ''x'')]) \<and>
   \<not> isObservable (JObj [(''data'', JStr ''x'')]) \<and>
   \<not> isAsyncGenerator (JObj [(''data'', JStr ''x'')]) \<and>
   serverStreamingHandler deferred_handler JNull JNull =
     Sequence (Failing (JError
       (''Unsupported input type. Expected Observable or AsyncGenerator, got ''
        @ typeof (JObj [(''data'', JStr ''x'')]))))"
proof -
  have a1: "await_js (stream_handler JNull JNull)
        = Fulfilled (JObservable (map Next [JNum ''1'', JNum ''2''] @ [Complete]))"
    by (simp add: stream_handler_def)
  have tc: "terminal (Complete :: jsval event)"
    by simp
  have n: "Return \<notin> set [Pull, Emit, Resume]"
    by simp
  have b0: "bridged_outcomes (serverStreamingHandler stream_handler JNull JNull) [Pull, Emit, Resume]
        = Some [Yield (JNum ''1'')]"
    by code_simp
  have p1: "(\<forall>v \<in> set [JNum ''1'', JNum ''2'']. \<not> instanceof_Promise v)"
    by simp
  have b1: "bridged_outcomes (serverStreamingHandler stream_handler JNull JNull)
          ([Pull, Emit, Resume] @ flush (Suc (length [JNum ''1'', JNum ''2''])))
        = Some [Yield (JNum ''1''), Yield (JNum ''2''), Done, Done, Done]"
    by code_simp
  have a2: "await_js (failing_stream_handler JNull JNull)
        = Fulfilled (JObservable (map Next [JNum ''1''] @ [Error (JError ''observable error'')]))"
    by (simp add: failing_stream_handler_def)
  have p2: "(\<forall>v \<in> set [JNum ''1'']. \<not> instanceof_Promise v)"
    by simp
  have e: "JError ''observable error'' \<noteq> JNull"
    by simp
  have b2: "bridged_outcomes (bidiStreamingHandler failing_stream_handler JNull JNull)
          ([Pull, Emit, Resume] @ flush (Suc (length [JNum ''1''])))
        = Some [Yield (JNum ''1''), Throw (JError ''observable error''), Done, Done]"
    by code_simp
  have a3: "await_js (generator_handler JNull JNull)
        = Fulfilled (JAsyncGen [Yield (JStr ''a''), Yield (JStr ''b''), Done])"
    by (simp add: generator_handler_def)
  have a4: "await_js (deferred_handler JNull JNull) = Fulfilled (JObj [(''data'', JStr ''x'')])"
    by (simp add: deferred_handler_def)
  have o1: "\<not> isObservable (JObj [(''data'', JStr ''x'')])"
    by simp
  have o2: "\<not> isAsyncGenerator (JObj [(''data'', JStr ''x'')])"
    by simp
  note t1 = stream_adapter_shapes [where handler = stream_handler and request = JNull
      and ctx = JNull and evs = "map Next [JNum ''1'', JNum ''2''] @ [Complete]"
      and vs = "[JNum ''1'', JNum ''2'']" and t = Complete and sched = "[Pull, Emit, Resume]"]
  note t2 = stream_adapter_shapes [where handler = failing_stream_handler and request = JNull
      and ctx = JNull and vs = "[JNum ''1'']" and e = "JError ''observable error''"
      and sched = "[Pull, Emit, Resume]"
      and outs = "[Yield (JNum ''1''), Throw (JError ''observable error''), Done, Done]"]
  note t3 = stream_adapter_shapes [where handler = generator_handler and request = JNull
      and ctx = JNull and gen = "[Yield (JStr ''a''), Yield (JStr ''b''), Done]"]
  note t4 = stream_adapter_shapes [where handler = deferred_handler and request = JNull
      and ctx = JNull and r = "JObj [(''data'', JStr ''x'')]"]
  note c3 = t1 [THEN conjunct2, THEN conjunct2, THEN conjunct1, rule_format, OF a1,
      THEN conjunct1]
  note c0 = t1 [where outs = "[Yield (JNum ''1'')]", THEN conjunct2, THEN conjunct2,
      THEN conjunct2, THEN conjunct1, rule_format,
      OF conjI [OF a1 conjI [OF tc conjI [OF n disjI1 [OF b0]]]]]
  note c1 = t1 [where outs = "[Yield (JNum ''1''), Yield (JNum ''2''), Done, Done, Done]",
      THEN conjunct2, THEN conjunct2, THEN conjunct2, THEN conjunct2, THEN conjunct1,
      rule_format, OF conjI [OF a1 conjI [OF tc conjI [OF n disjI1 [OF b1]]]]]
  note c2 = t1 [where outs = "[Yield (JNum ''1''), Yield (JNum ''2''), Done, Done, Done]",
      THEN conjunct2, THEN conjunct2, THEN conjunct2, THEN conjunct2, THEN conjunct2,
      THEN conjunct1, rule_format, OF conjI [OF a1 conjI [OF n conjI [OF p1 disjI1 [OF b1]]]]]
  note c4 = t2 [THEN conjunct2, THEN conjunct2, THEN conjunct2, THEN conjunct2, THEN conjunct2,
      THEN conjunct2, THEN conjunct1, rule_format,
      OF conjI [OF a2 conjI [OF n conjI [OF p2 conjI [OF e disjI2 [OF b2]]]]]]
  note c5 = t3 [THEN conjunct2, THEN conjunct2, THEN conjunct2, THEN conjunct2, THEN conjunct2,
      THEN conjunct2, THEN conjunct2, THEN conjunct1, rule_format, OF a3, THEN conjunct2]
  note c6 = t4 [THEN conjunct2, THEN conjunct2, THEN conjunct2, THEN conjunct2, THEN conjunct2,
      THEN conjunct2, THEN conjunct2, THEN conjunct2, rule_format,
      OF conjI [OF a4 conjI [OF o1 o2]], THEN conjunct1]
  have i: "\<not> instanceof_Promise (JNum ''1'')" "\<not> instanceof_Promise (JNum ''2'')" by simp_all
  show ?thesis
    by (intro conjI) (fact a1 tc n b0 c0 i b1 c1 c2 c3 a2 e b2 c4 a3 c5 a4 o1 o2 c6)+
qed

text \<open>
  As stated, C4 fails: for a handler that returns the object \<^verbatim>\<open>{data: "x"}\<close>, at once or
  through a promise, the adapter delivers no value; its pull sequence throws.
\<close>

theorem stream_adapter_shapes_counterexample:
  "serverStreamingHandler immediate_handler JNull JNull =
     Sequence (Failing (JError
       ''Unsupported input type. Expected Observable or AsyncGenerator, got object'')) \<and>
   bidiStreamingHandler deferred_handler JNull JNull =
     Sequence (Failing (JError
       ''Unsupported input type. Expected Observable or AsyncGenerator, got object''))"
  by (simp add: serverStreamingHandler_def bidiStreamingHandler_def immediate_handler_def
        deferred_handler_def)

text \<open>
  C5 (last value). The adapters built for the kinds \<^verbatim>\<open>no_stream\<close> and \<^verbatim>\<open>pt_stream\<close> await
  the handler's result and normalize it to a stream. When that stream emits the values
  \<open>vs\<close>, then \<open>v\<close>, and then completes, the adapter's promise resolves to \<open>v\<close>; the
  values \<open>vs\<close> are dropped.
\<close>

theorem last_value_semantics:
  "dispatch NO_STREAMING handler = Inr (unaryHandler handler) \<and>
   dispatch PT_STREAMING handler = Inr (clientStreamingHandler handler) \<and>
   (await_js (handler request ctx) = Fulfilled r \<and>
    transformToObservable r = map Next vs @ [Next v, Complete] \<longrightarrow>
      unaryHandler handler request ctx = Single (Fulfilled v) \<and>
      clientStreamingHandler handler request ctx = Single (Fulfilled v))"
  by (simp add: unaryHandler_def clientStreamingHandler_def lastValueFrom_def lastValue_last
        dispatch_def NO_STREAMING_def RX_STREAMING_def PT_STREAMING_def)

text \<open>An instance: the stream emits \<open>1\<close>, then \<open>2\<close>, then completes.\<close>

theorem last_value_semantics_witness:
  "await_js (stream_handler JNull JNull)
     = Fulfilled (JObservable [Next (JNum ''1''), Next (JNum ''2''), Complete]) \<and>
   transformToObservable (JObservable [Next (JNum ''1''), Next (JNum ''2''), Complete])
     = map Next [JNum ''1''] @ [Next (JNum ''2''), Complete] \<and>
   unaryHandler stream_handler JNull JNull = Single (Fulfilled (JNum ''2'')) \<and>
   clientStreamingHandler stream_handler JNull JNull = Single (Fulfilled (JNum ''2''))"
proof -
  have h: "await_js (stream_handler JNull JNull)
             = Fulfilled (JObservable [Next (JNum ''1''), Next (JNum ''2''), Complete]) \<and>
           transformToObservable (JObservable [Next (JNum ''1''), Next (JNum ''2''), Complete])
             = map Next [JNum ''1''] @ [Next (JNum ''2''), Complete]"
    by (simp add: stream_handler_def)
  from last_value_semantics [of stream_handler JNull JNull
         "JObservable [Next (JNum ''1''), Next (JNum ''2''), Complete]" "[JNum ''1'']" "JNum ''2''"] h
  show ?thesis by blast
qed

text \<open>
  C6 (empty result). When the normalized stream of a \<^verbatim>\<open>no_stream\<close> or \<^verbatim>\<open>pt_stream\<close>
  adapter completes with no emission, the adapter's promise is rejected with the
  Empty-Result error: it neither resolves nor stays unsettled.
\<close>

theorem empty_result_error:
  "dispatch NO_STREAMING handler = Inr (unaryHandler handler) \<and>
   dispatch PT_STREAMING handler = Inr (clientStreamingHandler handler) \<and>
   (await_js (handler request ctx) = Fulfilled r \<and> transformToObservable r = [Complete] \<longrightarrow>
      unaryHandler handler request ctx = Single (Rejected EmptyError) \<and>
      clientStreamingHandler handler request ctx = Single (Rejected EmptyError))"
  by (simp add: unaryHandler_def clientStreamingHandler_def lastValueFrom_def
        dispatch_def NO_STREAMING_def RX_STREAMING_def PT_STREAMING_def)

text \<open>An instance: the stream completes at once.\<close>

theorem empty_result_error_witness:
  "await_js (empty_stream_handler JNull JNull) = Fulfilled (JObservable [Complete]) \<and>
   transformToObservable (JObservable [Complete]) = [Complete] \<and>
   unaryHandler empty_stream_handler JNull JNull = Single (Rejected EmptyError) \<and>
   clientStreamingHandler empty_stream_handler JNull JNull = Single (Rejected EmptyError)"
proof -
  have h: "await_js (empty_stream_handler JNull JNull) = Fulfilled (JObservable [Complete]) \<and>
           transformToObservable (JObservable [Complete]) = [Complete]"
    by (simp add: empty_stream_handler_def)
  from empty_result_error [of empty_stream_handler JNull JNull "JObservable [Complete]"] h
  show ?thesis by blast
qed

subsection \<open>The binder\<close>

text \<open>
  C8 (unregistered services). For a handler table with one entry for each service name,
  \<^verbatim>\<open>addServicesToRouter\<close> returns the router with, in the order of the table, one attachment
  for each service whose name is in the descriptor registry, made of the descriptor found
  and the service's handler sub-table, and nothing for a service whose name is not in the
  registry. There is no failing path.
\<close>

theorem unregistered_service_tolerance:
  "distinct (map fst serviceHandlers) \<longrightarrow>
     addServicesToRouter metadataStore router serviceHandlers =
       router @ concat (map (\<lambda>(serviceName, impl).
                               case metadataStore serviceName of
                                 None \<Rightarrow> []
                               | Some descService \<Rightarrow> [(descService, impl)])
                          serviceHandlers)"
proof
  assume d: "distinct (map fst serviceHandlers)"
  have "foldl (attach metadataStore serviceHandlers) router (map fst serviceHandlers) =
          router @ concat (map (\<lambda>(name, impl).
                                  case metadataStore name of None \<Rightarrow> [] | Some d \<Rightarrow> [(d, impl)])
                             serviceHandlers)"
    by (rule attach_fold) (use d in simp)
  then show "addServicesToRouter metadataStore router serviceHandlers =
       router @ concat (map (\<lambda>(serviceName, impl).
                               case metadataStore serviceName of
                                 None \<Rightarrow> []
                               | Some descService \<Rightarrow> [(descService, impl)])
                          serviceHandlers)"
    by (simp add: addServicesToRouter_def)
qed

text \<open>An instance: one registered and one unknown service.\<close>

theorem unregistered_service_tolerance_witness:
  "distinct (map fst [(''TestController'', [(''sayHello'', 1 :: nat)]),
                      (''UnknownService'', [(''method'', 2)])]) \<and>
   addServicesToRouter [''TestController'' \<mapsto> ''test.v1.TestService''] []
       [(''TestController'', [(''sayHello'', 1 :: nat)]), (''UnknownService'', [(''method'', 2)])]
     = [(''test.v1.TestService'', [(''sayHello'', 1)])]"
proof -
  have h: "distinct (map fst [(''TestController'', [(''sayHello'', 1 :: nat)]),
                              (''UnknownService'', [(''method'', 2)])])"
    by simp
  from unregistered_service_tolerance [of
         "[(''TestController'', [(''sayHello'', 1 :: nat)]), (''UnknownService'', [(''method'', 2)])]"
         "[''TestController'' \<mapsto> ''test.v1.TestService'']" "[]"] h
  show ?thesis by simp
qed

end
